theory Spec2Isabelle
  imports Main "HOL-Library.Word"
begin

section \<open>JSON values as Python sees them\<close>

text \<open>
  \<^verbatim>\<open>json.load\<close> builds a tree of \<^verbatim>\<open>None\<close>, \<^verbatim>\<open>bool\<close>, \<^verbatim>\<open>int\<close>, \<^verbatim>\<open>float\<close>,
  \<^verbatim>\<open>str\<close>, \<^verbatim>\<open>list\<close> and \<^verbatim>\<open>dict\<close>. A \<^verbatim>\<open>float\<close> is kept as the 64 bits of its
  double: the program never computes with it, it only moves it around. A \<^verbatim>\<open>dict\<close> is
  the list of its items in insertion order; a Python \<^verbatim>\<open>dict\<close> never holds a name twice,
  which is the predicate \<open>unique_keys\<close> below.
\<close>

datatype json =
    JNull
  | JBool bool
  | JInt int
  | JFloat "64 word"
  | JStr string
  | JArr "json list"
  | JObj "(string \<times> json) list"

type_synonym items = "(string \<times> json) list"

text \<open>\<^verbatim>\<open>isinstance(x, dict)\<close>\<close>

fun isinstance_dict :: "json \<Rightarrow> bool" where
  "isinstance_dict (JObj fs) = True"
| "isinstance_dict _ = False"

text \<open>
  \<^verbatim>\<open>d[k] = v\<close>: an existing name keeps its place and gets the new value, a new name
  goes to the end. The dict operations do not look at the values, so they are written
  for any type of value; \<^verbatim>\<open>k in d\<close> and \<^verbatim>\<open>d[k]\<close> are \<open>map_of d k\<close>, which is \<open>None\<close>
  when \<open>k\<close> is not in \<open>d\<close>.
\<close>

primrec setitem :: "string \<Rightarrow> 'v \<Rightarrow> (string \<times> 'v) list \<Rightarrow> (string \<times> 'v) list" where
  "setitem k v [] = [(k, v)]"
| "setitem k v (p # ps) = (if fst p = k then (k, v) # ps else p # setitem k v ps)"

text \<open>\<^verbatim>\<open>d.pop(k, None)\<close>, for the dict that is left; the popped value is thrown away.\<close>

primrec pop :: "string \<Rightarrow> (string \<times> 'v) list \<Rightarrow> (string \<times> 'v) list" where
  "pop k [] = []"
| "pop k (p # ps) = (if fst p = k then pop k ps else p # pop k ps)"

text \<open>
  Reading through a value that may or may not be a dict: \<open>lookup x k\<close> is \<open>Some v\<close>
  exactly when \<open>x\<close> is a dict that holds \<open>k\<close> with value \<open>v\<close>.
\<close>

fun lookup :: "json \<Rightarrow> string \<Rightarrow> json option" where
  "lookup (JObj fs) k = map_of fs k"
| "lookup _ k = None"

text \<open>The names a document holds (empty when it is not a dict).\<close>

fun names :: "json \<Rightarrow> string set" where
  "names (JObj fs) = set (map fst fs)"
| "names _ = {}"

fun unique_keys :: "json \<Rightarrow> bool" where
  "unique_keys (JObj fs) = distinct (map fst fs)"
| "unique_keys _ = True"

section \<open>The merge: \<^verbatim>\<open>apply_binds\<close>\<close>

datatype halt =
    Cancelled
  | LoadError string
  | SaveError string
  | AttributeError

text \<open>
  Pass 1 of \<^verbatim>\<open>apply_binds\<close>:
  \<^verbatim>\<open>
  for module, params in list(dst_cfg.items()):
      if isinstance(params, dict):
          params.pop("key", None)
  \<close>
  The entry is changed in place, so the document holds the changed entry under the
  same name afterwards.
\<close>

fun strip_entry :: "json \<Rightarrow> json" where
  "strip_entry (JObj fs) = JObj (pop ''key'' fs)"
| "strip_entry params = params"

fun strip_pass :: "items \<Rightarrow> items" where
  "strip_pass [] = []"
| "strip_pass ((module, params) # rest) = (module, strip_entry params) # strip_pass rest"

text \<open>
  The body of pass 2 for one item of the source:
  \<^verbatim>\<open>
  if module in dst_cfg and isinstance(src_params, dict) and "key" in src_params:
      if not isinstance(dst_cfg[module], dict):
          dst_cfg[module] = {}
      dst_cfg[module]["key"] = src_params["key"]
  \<close>
\<close>

text \<open>
  The dict that \<^verbatim>\<open>dst_cfg[module]\<close> is once the inner \<^verbatim>\<open>if\<close> has run: the entry's
  own items when it is a dict, those of the fresh \<^verbatim>\<open>{}\<close> otherwise.
\<close>

fun ensure_dict :: "json \<Rightarrow> items" where
  "ensure_dict (JObj fs) = fs"
| "ensure_dict _ = []"

definition copy_step :: "string \<times> json \<Rightarrow> items \<Rightarrow> items" where
  "copy_step item dst_cfg =
     (case item of (module, src_params) \<Rightarrow>
        (case map_of dst_cfg module of
           None \<Rightarrow> dst_cfg
         | Some entry \<Rightarrow>
            (case lookup src_params ''key'' of
               None \<Rightarrow> dst_cfg
             | Some k \<Rightarrow> setitem module (JObj (setitem ''key'' k (ensure_dict entry))) dst_cfg)))"

text \<open>Pass 2: \<^verbatim>\<open>for module, src_params in src_cfg.items(): ...\<close>\<close>

fun copy_pass :: "items \<Rightarrow> items \<Rightarrow> items" where
  "copy_pass [] dst_cfg = dst_cfg"
| "copy_pass (item # rest) dst_cfg = copy_pass rest (copy_step item dst_cfg)"

text \<open>
  \<^verbatim>\<open>apply_binds(src_cfg, dst_cfg)\<close>. \<^verbatim>\<open>dst_cfg.items()\<close> is the first thing
  evaluated and \<^verbatim>\<open>src_cfg.items()\<close> the next; either raises \<^verbatim>\<open>AttributeError\<close> on a
  value that is not a dict.
\<close>

definition apply_binds :: "json \<Rightarrow> json \<Rightarrow> halt + json" where
  "apply_binds src_cfg dst_cfg =
     (case dst_cfg of
        JObj d \<Rightarrow>
          (case src_cfg of
             JObj s \<Rightarrow> Inr (JObj (copy_pass s (strip_pass d)))
           | _ \<Rightarrow> Inl AttributeError)
      | _ \<Rightarrow> Inl AttributeError)"

text \<open>
  The passes in the other order, copy first and strip second. \<^verbatim>\<open>apply_binds\<close> does not
  do this; it is here to be compared with \<open>apply_binds\<close>.
\<close>

definition apply_binds_copy_first :: "json \<Rightarrow> json \<Rightarrow> halt + json" where
  "apply_binds_copy_first src_cfg dst_cfg =
     (case dst_cfg of
        JObj d \<Rightarrow>
          (case src_cfg of
             JObj s \<Rightarrow> Inr (JObj (strip_pass (copy_pass s d)))
           | _ \<Rightarrow> Inl AttributeError)
      | _ \<Rightarrow> Inl AttributeError)"

section \<open>Files, paths and the processing loop of \<^verbatim>\<open>main\<close>\<close>

text \<open>
  A path of the file system either cannot be opened for reading (\<open>None\<close>), or holds
  text that \<^verbatim>\<open>json.load\<close> rejects (\<open>NotJson\<close>), or holds the text of a JSON value
  (\<open>Json v\<close>, kept as the value that \<^verbatim>\<open>json.load\<close> returns for it and that
  \<^verbatim>\<open>json.dump\<close> writes). \<open>writable\<close> says where \<^verbatim>\<open>open(path, "w")\<close> succeeds.
\<close>

datatype content = NotJson | Json json

record filesystem =
  files :: "string \<Rightarrow> content option"
  writable :: "string \<Rightarrow> bool"

text \<open>
  \<^verbatim>\<open>load_json\<close>: any exception of \<^verbatim>\<open>open\<close> or \<^verbatim>\<open>json.load\<close> ends the program
  through \<^verbatim>\<open>sys.exit(1)\<close> after an error box naming the path; otherwise the parsed
  value is returned as it is.
\<close>

definition load_json :: "filesystem \<Rightarrow> string \<Rightarrow> halt + json" where
  "load_json fs path =
     (case files fs path of
        None \<Rightarrow> Inl (LoadError path)
      | Some NotJson \<Rightarrow> Inl (LoadError path)
      | Some (Json v) \<Rightarrow> Inr v)"

text \<open>\<^verbatim>\<open>save_json\<close>: the file holds the dumped value afterwards, or the program ends.\<close>

definition save_json :: "json \<Rightarrow> string \<Rightarrow> filesystem \<Rightarrow> halt + filesystem" where
  "save_json obj path fs =
     (if writable fs path then Inr (fs\<lparr>files := (files fs)(path \<mapsto> Json obj)\<rparr>)
      else Inl (SaveError path))"

text \<open>
  The four functions of \<^verbatim>\<open>os.path\<close> that \<^verbatim>\<open>main\<close> calls. They belong to the Python
  library and differ between platforms, so the loop takes them as a parameter.
\<close>

record os_path =
  basename :: "string \<Rightarrow> string"
  dirname :: "string \<Rightarrow> string"
  splitext :: "string \<Rightarrow> string \<times> string"
  join :: "string \<Rightarrow> string \<Rightarrow> string"

text \<open>
  The POSIX flavour, after CPython's \<^verbatim>\<open>posixpath.py\<close> and \<^verbatim>\<open>genericpath._splitext\<close>,
  to run the loop on concrete paths.
\<close>

definition posix_basename :: "string \<Rightarrow> string" where
  "posix_basename p = rev (takeWhile (\<lambda>c. c \<noteq> CHR ''/'') (rev p))"

definition posix_dirname :: "string \<Rightarrow> string" where
  "posix_dirname p =
     (let head = rev (dropWhile (\<lambda>c. c \<noteq> CHR ''/'') (rev p))
      in if head \<noteq> [] \<and> (\<exists>c \<in> set head. c \<noteq> CHR ''/'')
         then rev (dropWhile (\<lambda>c. c = CHR ''/'') (rev head))
         else head)"

definition posix_splitext :: "string \<Rightarrow> string \<times> string" where
  "posix_splitext p =
     (let name = posix_basename p
      in if CHR ''.'' \<in> set name \<and>
            (\<exists>c \<in> set (tl (dropWhile (\<lambda>c. c \<noteq> CHR ''.'') (rev name))). c \<noteq> CHR ''.'')
         then (rev (tl (dropWhile (\<lambda>c. c \<noteq> CHR ''.'') (rev p))),
               CHR ''.'' # rev (takeWhile (\<lambda>c. c \<noteq> CHR ''.'') (rev p)))
         else (p, []))"

definition posix_join :: "string \<Rightarrow> string \<Rightarrow> string" where
  "posix_join a b =
     (if b \<noteq> [] \<and> hd b = CHR ''/'' then b
      else if a = [] \<or> last a = CHR ''/'' then a @ b
      else a @ ''/'' @ b)"

definition posixpath :: os_path where
  "posixpath = \<lparr>basename = posix_basename, dirname = posix_dirname,
                 splitext = posix_splitext, join = posix_join\<rparr>"

text \<open>
  A naming pattern is a template of literal text and \<^verbatim>\<open>{base}\<close> fields;
  \<^verbatim>\<open>pattern.format(base=base)\<close> puts the stem in each field. The pattern of the
  source is \<^verbatim>\<open>"{base}_mybind.json"\<close>.
\<close>

datatype piece = Lit string | Base

type_synonym pattern = "piece list"

fun format_piece :: "string \<Rightarrow> piece \<Rightarrow> string" where
  "format_piece base (Lit s) = s"
| "format_piece base Base = base"

definition format :: "pattern \<Rightarrow> string \<Rightarrow> string" where
  "format pat base = concat (map (format_piece base) pat)"

text \<open>The user-tunable constants at the top of the script, and their values there.\<close>

record settings =
  ASK_WHERE_TO_SAVE :: bool
  OUTPUT_NAME_PATTERN :: pattern

definition shipped :: settings where
  "shipped = \<lparr>ASK_WHERE_TO_SAVE = False, OUTPUT_NAME_PATTERN = [Base, Lit ''_mybind.json'']\<rparr>"

text \<open>
  What the dialogs of steps 1 to 3 hand back: a file dialog returns the empty string
  (no file list) when the user cancels.
\<close>

record dialogs =
  picked_src :: string
  picked_dsts :: "string list"
  picked_out_file :: string
  picked_out_dir :: string

text \<open>
  \<^verbatim>\<open>x if x else y\<close> for an \<open>x\<close> that is \<^verbatim>\<open>None\<close> or a string: both \<^verbatim>\<open>None\<close> and
  the empty string count as false.
\<close>

fun if_chosen :: "string option \<Rightarrow> string \<Rightarrow> string" where
  "if_chosen None y = y"
| "if_chosen (Some x) y = (if x \<noteq> [] then x else y)"

text \<open>
  \<^verbatim>\<open>os.path.join(os.path.dirname(dst_path), OUTPUT_NAME_PATTERN.format(base=base))\<close>
  with \<^verbatim>\<open>base, _ext = os.path.splitext(os.path.basename(dst_path))\<close>: the output
  beside the target.
\<close>

definition sibling_path :: "os_path \<Rightarrow> pattern \<Rightarrow> string \<Rightarrow> string" where
  "sibling_path P pat dst_path =
     join P (dirname P dst_path) (format pat (fst (splitext P (basename P dst_path))))"

text \<open>The \<^verbatim>\<open># Determine out_path\<close> block of the loop; \<open>n\<close> is \<^verbatim>\<open>len(dst_paths)\<close>.\<close>

definition out_path_for ::
  "os_path \<Rightarrow> settings \<Rightarrow> string option \<Rightarrow> string option \<Rightarrow> nat \<Rightarrow> string \<Rightarrow> string" where
  "out_path_for P cfg chosen_out_file chosen_out_dir n dst_path =
     (if \<not> ASK_WHERE_TO_SAVE cfg then sibling_path P (OUTPUT_NAME_PATTERN cfg) dst_path
      else if n = 1 then
        if_chosen chosen_out_file (sibling_path P (OUTPUT_NAME_PATTERN cfg) dst_path)
      else
        join P (if_chosen chosen_out_dir (dirname P dst_path))
          (format (OUTPUT_NAME_PATTERN cfg) (fst (splitext P (basename P dst_path)))))"

text \<open>
  The loop \<^verbatim>\<open>for dst_path in dst_paths\<close>: load, merge, resolve the output path, save,
  append. The first failure ends the program; the file system is then as the earlier
  rounds left it.
\<close>

fun process_targets ::
  "os_path \<Rightarrow> settings \<Rightarrow> string option \<Rightarrow> string option \<Rightarrow> nat \<Rightarrow> json \<Rightarrow>
   string list \<Rightarrow> filesystem \<Rightarrow> string list \<Rightarrow> (halt + string list) \<times> filesystem" where
  "process_targets P cfg cof cod n src_cfg [] fs generated_paths = (Inr generated_paths, fs)"
| "process_targets P cfg cof cod n src_cfg (dst_path # rest) fs generated_paths =
     (case load_json fs dst_path of
        Inl e \<Rightarrow> (Inl e, fs)
      | Inr dst_cfg \<Rightarrow>
         (case apply_binds src_cfg dst_cfg of
            Inl e \<Rightarrow> (Inl e, fs)
          | Inr updated \<Rightarrow>
             (let out_path = out_path_for P cfg cof cod n dst_path
              in case save_json updated out_path fs of
                   Inl e \<Rightarrow> (Inl e, fs)
                 | Inr fs' \<Rightarrow>
                    process_targets P cfg cof cod n src_cfg rest fs'
                      (generated_paths @ [out_path]))))"

text \<open>
  \<^verbatim>\<open>main\<close>, from the answers of the dialogs on: the result is the list
  \<^verbatim>\<open>generated_paths\<close> that the last message box reports, or the reason the program
  ended early, together with the file system it leaves. \<^verbatim>\<open>chosen_out_file\<close> and
  \<^verbatim>\<open>chosen_out_dir\<close> stay \<^verbatim>\<open>None\<close> unless step 3 asks for them.
\<close>

definition chosen_out_file :: "settings \<Rightarrow> dialogs \<Rightarrow> string option" where
  "chosen_out_file cfg dlg =
     (if ASK_WHERE_TO_SAVE cfg \<and> length (picked_dsts dlg) = 1
      then Some (picked_out_file dlg) else None)"

definition chosen_out_dir :: "settings \<Rightarrow> dialogs \<Rightarrow> string option" where
  "chosen_out_dir cfg dlg =
     (if ASK_WHERE_TO_SAVE cfg \<and> length (picked_dsts dlg) \<noteq> 1
      then Some (picked_out_dir dlg) else None)"

definition main ::
  "os_path \<Rightarrow> settings \<Rightarrow> dialogs \<Rightarrow> filesystem \<Rightarrow> (halt + string list) \<times> filesystem" where
  "main P cfg dlg fs =
     (if picked_src dlg = [] then (Inl Cancelled, fs)
      else if picked_dsts dlg = [] then (Inl Cancelled, fs)
      else
        (case load_json fs (picked_src dlg) of
           Inl e \<Rightarrow> (Inl e, fs)
         | Inr src_cfg \<Rightarrow>
            process_targets P cfg (chosen_out_file cfg dlg) (chosen_out_dir cfg dlg)
              (length (picked_dsts dlg)) src_cfg (picked_dsts dlg) fs []))"

section \<open>\<^verbatim>\<open>apply_binds\<close> on a store of dict objects\<close>

text \<open>
  \<^verbatim>\<open>apply_binds\<close> changes dicts in place, so whether it changes the source depends on
  which dict objects the two documents share. Here a dict is an object of a store and a
  value refers to it by address; the other values are never changed by the program and
  stay plain values. \<open>next_addr\<close> is the address that the next \<^verbatim>\<open>{}\<close> gets.
\<close>

type_synonym addr = nat

datatype pyval =
    PNone
  | PBool bool
  | PInt int
  | PFloat "64 word"
  | PStr string
  | PList "pyval list"
  | PDict addr

record store =
  objs :: "addr \<Rightarrow> (string \<times> pyval) list option"
  next_addr :: addr

datatype raised = RaisedAttributeError | RaisedRuntimeError

text \<open>The dict behind a value, if the value is a dict.\<close>

fun as_dict :: "store \<Rightarrow> pyval \<Rightarrow> (addr \<times> (string \<times> pyval) list) option" where
  "as_dict st (PDict a) = (case objs st a of None \<Rightarrow> None | Some fs \<Rightarrow> Some (a, fs))"
| "as_dict st _ = None"

text \<open>
  Pass 1 runs over \<^verbatim>\<open>list(dst_cfg.items())\<close>, a copy of the items taken before the
  loop starts. \<^verbatim>\<open>params.pop("key", None)\<close> changes the object \<open>params\<close> refers to.
\<close>

fun strip_loop :: "(string \<times> pyval) list \<Rightarrow> store \<Rightarrow> store" where
  "strip_loop [] st = st"
| "strip_loop ((module, params) # rest) st =
     strip_loop rest
       (case as_dict st params of
          None \<Rightarrow> st
        | Some (a, fs) \<Rightarrow> st\<lparr>objs := (objs st)(a \<mapsto> pop ''key'' fs)\<rparr>)"

text \<open>
  The body of pass 2. \<^verbatim>\<open>dst_cfg[module] = {}\<close> makes a new dict object and stores a
  reference to it in the target; \<^verbatim>\<open>dst_cfg[module]["key"] = ...\<close> changes the object
  the target's entry refers to.
\<close>

definition copy_body :: "addr \<Rightarrow> string \<times> pyval \<Rightarrow> store \<Rightarrow> store" where
  "copy_body dst item st =
     (case item of (module, src_params) \<Rightarrow>
        (case objs st dst of
           None \<Rightarrow> st
         | Some d \<Rightarrow>
            (case map_of d module of
               None \<Rightarrow> st
             | Some entry \<Rightarrow>
                (case as_dict st src_params of
                   None \<Rightarrow> st
                 | Some (sa, sfs) \<Rightarrow>
                    (case map_of sfs ''key'' of
                       None \<Rightarrow> st
                     | Some k \<Rightarrow>
                        (case as_dict st entry of
                           Some (ea, efs) \<Rightarrow>
                             st\<lparr>objs := (objs st)(ea \<mapsto> setitem ''key'' k efs)\<rparr>
                         | None \<Rightarrow>
                             st\<lparr>objs := (objs st)
                                   (dst \<mapsto> setitem module (PDict (next_addr st)) d,
                                    next_addr st \<mapsto> setitem ''key'' k []),
                                 next_addr := Suc (next_addr st)\<rparr>))))))"

text \<open>
  Pass 2 runs over the live \<^verbatim>\<open>src_cfg.items()\<close>: each round reads the item at the next
  position of the dict as it is then, and Python raises \<^verbatim>\<open>RuntimeError\<close> when the dict
  has changed size since the loop started (\<open>n\<close> is the size at the start).
\<close>

function copy_loop :: "addr \<Rightarrow> addr \<Rightarrow> nat \<Rightarrow> nat \<Rightarrow> store \<Rightarrow> raised + store" where
  "copy_loop src dst n i st =
     (case objs st src of
        None \<Rightarrow> Inl RaisedAttributeError
      | Some s \<Rightarrow>
         if length s \<noteq> n then Inl RaisedRuntimeError
         else if n \<le> i then Inr st
         else copy_loop src dst n (Suc i) (copy_body dst (s ! i) st))"
  by pat_completeness auto
termination
  by (relation "measure (\<lambda>(src, dst, n, i, st). n - i)") auto

definition apply_binds_store :: "pyval \<Rightarrow> pyval \<Rightarrow> store \<Rightarrow> raised + pyval \<times> store" where
  "apply_binds_store src_cfg dst_cfg st =
     (case as_dict st dst_cfg of
        None \<Rightarrow> Inl RaisedAttributeError
      | Some (dst, d) \<Rightarrow>
         (let st1 = strip_loop d st
          in case as_dict st1 src_cfg of
               None \<Rightarrow> Inl RaisedAttributeError
             | Some (src, s) \<Rightarrow>
                (case copy_loop src dst (length s) 0 st1 of
                   Inl e \<Rightarrow> Inl e
                 | Inr st2 \<Rightarrow> Inr (dst_cfg, st2))))"

text \<open>The addresses of the dicts a value refers to, directly or inside lists.\<close>

fun refs :: "pyval \<Rightarrow> addr set" where
  "refs (PDict a) = {a}"
| "refs (PList vs) = (\<Union>v \<in> set vs. refs v)"
| "refs _ = {}"

text \<open>The dict objects that make up a document: all that can be reached from it.\<close>

inductive_set reach :: "store \<Rightarrow> addr \<Rightarrow> addr set" for st :: store and a :: addr where
  start: "a \<in> reach st a"
| step: "b \<in> reach st a \<Longrightarrow> objs st b = Some fs \<Longrightarrow> (m, v) \<in> set fs \<Longrightarrow> c \<in> refs v
         \<Longrightarrow> c \<in> reach st a"

text \<open>
  The dict objects \<^verbatim>\<open>apply_binds\<close> may write to: the target and the dicts that are its
  module entries when the call starts.
\<close>

definition entries :: "store \<Rightarrow> addr \<Rightarrow> addr set" where
  "entries st dst = {a. \<exists>d m. objs st dst = Some d \<and> (m, PDict a) \<in> set d}"

definition written :: "store \<Rightarrow> addr \<Rightarrow> addr set" where
  "written st dst = insert dst (entries st dst)"

text \<open>Every dict object lies below \<open>next_addr\<close>, so a new dict is a new object.\<close>

definition allocated :: "store \<Rightarrow> bool" where
  "allocated st = (\<forall>a. objs st a \<noteq> None \<longrightarrow> a < next_addr st)"

text \<open>
  Source and target as two separate documents, which is what two calls of
  \<^verbatim>\<open>json.load\<close> give: both are dicts of the store, every dict of the source is there,
  the target is not one of its own entries, and no dict of the source is the target
  or one of the target's entries.
\<close>

definition separate :: "store \<Rightarrow> addr \<Rightarrow> addr \<Rightarrow> bool" where
  "separate st src dst =
     (allocated st \<and> (\<forall>a \<in> reach st src. objs st a \<noteq> None) \<and> objs st dst \<noteq> None \<and>
      dst \<notin> entries st dst \<and> reach st src \<inter> written st dst = {})"

text \<open>
  What holds of the store \<open>st\<close> at every point of a call that started in \<open>st0\<close>:
  dicts outside \<open>written st0 dst\<close> are as they were, and the target's entries are
  dicts it had at the start or dicts made since.
\<close>

definition frame_inv :: "store \<Rightarrow> addr \<Rightarrow> store \<Rightarrow> bool" where
  "frame_inv st0 dst st =
     (next_addr st0 \<le> next_addr st \<and> objs st dst \<noteq> None \<and>
      (\<forall>a. a \<notin> written st0 dst \<longrightarrow> a < next_addr st0 \<longrightarrow> objs st a = objs st0 a) \<and>
      (\<forall>d m a. objs st dst = Some d \<longrightarrow> (m, PDict a) \<in> set d \<longrightarrow>
         a \<noteq> dst \<and> (a \<in> written st0 dst \<or> next_addr st0 \<le> a)))"

text \<open>
  Reading a document of the store as a tree, two levels deep, which is as deep as
  \<^verbatim>\<open>apply_binds\<close> looks: the document is a dict of entries, an entry that is a dict
  is read field by field, and \<open>rd\<close> reads the values below that (the fields of an
  entry, and an entry that is not a dict).
\<close>

definition read_fields :: "(pyval \<Rightarrow> json) \<Rightarrow> (string \<times> pyval) list \<Rightarrow> items" where
  "read_fields rd fs = map (\<lambda>(f, x). (f, rd x)) fs"

definition read_entry :: "(pyval \<Rightarrow> json) \<Rightarrow> store \<Rightarrow> pyval \<Rightarrow> json" where
  "read_entry rd st v =
     (case as_dict st v of Some (a, fs) \<Rightarrow> JObj (read_fields rd fs) | None \<Rightarrow> rd v)"

definition read_items :: "(pyval \<Rightarrow> json) \<Rightarrow> store \<Rightarrow> (string \<times> pyval) list \<Rightarrow> items" where
  "read_items rd st d = map (\<lambda>(m, v). (m, read_entry rd st v)) d"

text \<open>The addresses of the entries of a dict that are dicts, in order.\<close>

fun dict_addrs :: "(string \<times> pyval) list \<Rightarrow> addr list" where
  "dict_addrs [] = []"
| "dict_addrs ((m, PDict a) # rest) = a # dict_addrs rest"
| "dict_addrs (_ # rest) = dict_addrs rest"

text \<open>
  How the store \<open>st\<close> of a call that started in \<open>st0\<close> stands to the tree \<open>D\<close>: the
  target reads as \<open>D\<close>, its dict entries are different live objects outside the
  source, and the source is as it was.
\<close>

definition sim ::
  "(pyval \<Rightarrow> json) \<Rightarrow> store \<Rightarrow> addr \<Rightarrow> addr \<Rightarrow> store \<Rightarrow> items \<Rightarrow> bool" where
  "sim rd st0 src dst st D =
     (\<exists>d. objs st dst = Some d \<and> read_items rd st d = D \<and> distinct (dict_addrs d) \<and>
          (\<forall>a \<in> set (dict_addrs d). a \<noteq> dst \<and> a \<notin> reach st0 src \<and> objs st a \<noteq> None) \<and>
          allocated st \<and> dst \<notin> reach st0 src \<and>
          (\<forall>a \<in> reach st0 src. objs st a = objs st0 a \<and> objs st0 a \<noteq> None) \<and>
          (\<forall>v. as_dict st0 v = None \<longrightarrow> \<not> isinstance_dict (rd v)))"

text \<open>
  A reading for values that hold no dict. A dict below the two levels is not followed
  and reads as \<^verbatim>\<open>null\<close>.
\<close>

fun leaf :: "pyval \<Rightarrow> json" where
  "leaf PNone = JNull"
| "leaf (PBool b) = JBool b"
| "leaf (PInt i) = JInt i"
| "leaf (PFloat w) = JFloat w"
| "leaf (PStr s) = JStr s"
| "leaf (PList vs) = JArr (map leaf vs)"
| "leaf (PDict a) = JNull"

section \<open>Concrete documents, files and stores\<close>

text \<open>
  Scenario A of the specification: the source binds \<^verbatim>\<open>move\<close> and \<^verbatim>\<open>jump\<close>, the
  target has \<^verbatim>\<open>move\<close> (with a second field, the double 1.0) and \<^verbatim>\<open>chat\<close>.
\<close>

definition scenario_src :: json where
  "scenario_src =
     JObj [(''move'', JObj [(''key'', JStr ''W'')]), (''jump'', JObj [(''key'', JStr ''SPACE'')])]"

definition scenario_dst :: json where
  "scenario_dst =
     JObj [(''move'', JObj [(''key'', JStr ''UP''), (''sens'', JFloat 0x3FF0000000000000)]),
           (''chat'', JObj [(''key'', JStr ''T'')])]"

text \<open>A source whose keys are \<^verbatim>\<open>null\<close> and \<^verbatim>\<open>[]\<close>, and a target with an entry that is a number.\<close>

definition falsy_src :: json where
  "falsy_src = JObj [(''move'', JObj [(''key'', JNull)]), (''zoom'', JObj [(''key'', JArr [])])]"

definition odd_dst :: json where
  "odd_dst = JObj [(''move'', JObj [(''key'', JStr ''UP'')]), (''zoom'', JInt 3)]"

text \<open>
  A directory with a source, two targets, a file whose root is a list, and nothing
  at \<^verbatim>\<open>/c/gone.json\<close>; every path can be written.
\<close>

definition disk :: filesystem where
  "disk =
     \<lparr>files = [''/c/src.json'' \<mapsto> Json scenario_src,
               ''/c/a.json'' \<mapsto> Json scenario_dst,
               ''/c/b.json'' \<mapsto> Json odd_dst,
               ''/c/list.json'' \<mapsto> Json (JArr [])],
      writable = (\<lambda>path. True)\<rparr>"

definition two_targets :: dialogs where
  "two_targets =
     \<lparr>picked_src = ''/c/src.json'', picked_dsts = [''/c/a.json'', ''/c/b.json''],
      picked_out_file = [], picked_out_dir = []\<rparr>"

definition gone_second :: dialogs where
  "gone_second =
     \<lparr>picked_src = ''/c/src.json'',
      picked_dsts = [''/c/a.json'', ''/c/gone.json'', ''/c/b.json''],
      picked_out_file = [], picked_out_dir = []\<rparr>"

text \<open>
  A store with the source at address 0 (its entries at 1 and 4) and the target at
  address 2 (one entry at 3, the other a number).
\<close>

definition two_docs :: store where
  "two_docs =
     \<lparr>objs = [0 \<mapsto> [(''move'', PDict 1), (''chat'', PDict 4)],
              1 \<mapsto> [(''key'', PStr ''W'')],
              2 \<mapsto> [(''move'', PDict 3), (''chat'', PInt 3)],
              3 \<mapsto> [(''key'', PStr ''UP''), (''sens'', PInt 1)],
              4 \<mapsto> [(''key'', PNone)]],
      next_addr = 5\<rparr>"

section \<open>Facts about the dict operations\<close>

lemma map_of_setitem: "map_of (setitem k v d) = (map_of d)(k \<mapsto> v)"
  by (induction d) auto

lemma keys_setitem: "map_of d k = Some e \<Longrightarrow> map fst (setitem k v d) = map fst d"
  by (induction d) (auto split: if_splits)

lemma set_setitem_subset: "set (setitem k v fs) \<subseteq> insert (k, v) (set fs)"
  by (induction fs) auto

lemma map_of_pop: "map_of (pop k d) = (map_of d)(k := None)"
  by (induction d) auto

lemma lookup_strip_entry:
  "lookup (strip_entry e) f = (if f = ''key'' then None else lookup e f)"
  by (cases e) (simp_all add: map_of_pop)

lemma lookup_ensure_dict: "map_of (ensure_dict e) f = lookup e f"
  by (cases e) simp_all

lemma names_dom: "m \<in> names d \<longleftrightarrow> lookup d m \<noteq> None"
  by (cases d) (auto simp: map_of_eq_None_iff)

section \<open>The two passes, name by name\<close>

lemma keys_strip_pass: "map fst (strip_pass d) = map fst d"
  by (induction d rule: strip_pass.induct) auto

lemma map_of_strip_pass: "map_of (strip_pass d) m = map_option strip_entry (map_of d m)"
  by (induction d rule: strip_pass.induct) auto

lemma keys_copy_step: "map fst (copy_step item d) = map fst d"
  by (auto simp: copy_step_def keys_setitem split: prod.splits option.splits)

lemma keys_copy_pass: "map fst (copy_pass s d) = map fst d"
  by (induction s arbitrary: d) (auto simp: keys_copy_step)

lemma map_of_copy_step:
  "map_of (copy_step (m', sp) d) m =
     (case map_of d m of
        None \<Rightarrow> None
      | Some e \<Rightarrow>
         (if m' = m then
            (case lookup sp ''key'' of
               None \<Rightarrow> Some e
             | Some k \<Rightarrow> Some (JObj (setitem ''key'' k (ensure_dict e))))
          else Some e))"
  by (auto simp: copy_step_def map_of_setitem split: option.splits)

lemma map_of_copy_pass_other:
  "m \<notin> set (map fst s) \<Longrightarrow> map_of (copy_pass s d) m = map_of d m"
proof (induction s arbitrary: d)
  case Nil
  then show ?case by simp
next
  case (Cons item s)
  obtain m' sp where item: "item = (m', sp)" by (cases item)
  with Cons.prems have "m' \<noteq> m" and "m \<notin> set (map fst s)" by auto
  then show ?case
    using Cons.IH [of "copy_step item d"]
    by (simp add: item map_of_copy_step split: option.splits)
qed

text \<open>
  What pass 2 leaves under a name, when the source holds no name twice: the entry is
  touched only if the source has a dict with a \<^verbatim>\<open>key\<close> under that name.
\<close>

lemma map_of_copy_pass:
  "distinct (map fst s) \<Longrightarrow>
   map_of (copy_pass s d) m =
     (case map_of d m of
        None \<Rightarrow> None
      | Some e \<Rightarrow>
         (case map_of s m of
            None \<Rightarrow> Some e
          | Some sp \<Rightarrow>
             (case lookup sp ''key'' of
                None \<Rightarrow> Some e
              | Some k \<Rightarrow> Some (JObj (setitem ''key'' k (ensure_dict e))))))"
proof (induction s arbitrary: d)
  case Nil
  then show ?case by (simp split: option.splits)
next
  case (Cons item s)
  obtain m' sp where item: "item = (m', sp)" by (cases item)
  from Cons.prems item have fresh: "m' \<notin> set (map fst s)" and dist: "distinct (map fst s)"
    by auto
  show ?case
  proof (cases "m' = m")
    case True
    with fresh have "map_of s m = None"
      by (simp add: map_of_eq_None_iff)
    moreover have "map_of (copy_pass s (copy_step item d)) m = map_of (copy_step item d) m"
      using fresh True by (simp add: map_of_copy_pass_other)
    ultimately show ?thesis
      using True by (simp add: item map_of_copy_step split: option.splits)
  next
    case False
    then show ?thesis
      using Cons.IH [OF dist, of "copy_step item d"]
      by (simp add: item map_of_copy_step split: option.splits)
  qed
qed

lemma apply_binds_dicts:
  "apply_binds (JObj s) (JObj d) = Inr (JObj (copy_pass s (strip_pass d)))"
  by (simp add: apply_binds_def)

lemma lookup_apply_binds:
  assumes "distinct (map fst s)"
  shows "map_of (copy_pass s (strip_pass d)) m =
     (case map_of d m of
        None \<Rightarrow> None
      | Some e \<Rightarrow>
         (case map_of s m of
            None \<Rightarrow> Some (strip_entry e)
          | Some sp \<Rightarrow>
             (case lookup sp ''key'' of
                None \<Rightarrow> Some (strip_entry e)
              | Some k \<Rightarrow> Some (JObj (setitem ''key'' k (ensure_dict (strip_entry e)))))))"
  using assms by (simp add: map_of_copy_pass map_of_strip_pass split: option.splits)

text \<open>Pass 2 leaves every field but \<^verbatim>\<open>key\<close> alone, and a dict stays a dict.\<close>

lemma copy_pass_fields:
  "map_of d m = Some e \<Longrightarrow> f \<noteq> ''key'' \<Longrightarrow>
   \<exists>e'. map_of (copy_pass s d) m = Some e' \<and> lookup e' f = lookup e f \<and>
        (isinstance_dict e \<longrightarrow> isinstance_dict e')"
proof (induction s arbitrary: d e)
  case Nil
  then show ?case by simp
next
  case (Cons item s)
  obtain m' sp where item: "item = (m', sp)" by (cases item)
  have "\<exists>e1. map_of (copy_step item d) m = Some e1 \<and> lookup e1 f = lookup e f \<and>
          (isinstance_dict e \<longrightarrow> isinstance_dict e1)"
    using Cons.prems
    by (cases "lookup sp ''key''")
       (simp_all add: item map_of_copy_step map_of_setitem lookup_ensure_dict)
  then obtain e1 where e1: "map_of (copy_step item d) m = Some e1"
    and f1: "lookup e1 f = lookup e f" and d1: "isinstance_dict e \<longrightarrow> isinstance_dict e1"
    by blast
  from Cons.IH [OF e1 Cons.prems(2)] f1 d1 show ?case by auto
qed

section \<open>Claims about the merge\<close>

text \<open>
  Claim C1 (copy fidelity). Let the source hold no name twice, as every dict does. For
  every module name \<open>m\<close> that the target has and under which the source has a dict with
  a \<^verbatim>\<open>key\<close> field of value \<open>k\<close>, \<^verbatim>\<open>apply_binds\<close> returns a target whose entry for
  \<open>m\<close> is a dict with \<^verbatim>\<open>key\<close> equal to \<open>k\<close>. The value \<open>k\<close> is arbitrary: \<^verbatim>\<open>null\<close>
  and empty structures are copied like any other, since only the presence of the
  field is tested.
\<close>

theorem copy_fidelity:
  assumes "unique_keys src_cfg"
    and "lookup src_cfg m = Some src_params"
    and "lookup src_params ''key'' = Some k"
    and "m \<in> names dst_cfg"
  shows "\<exists>merged entry. apply_binds src_cfg dst_cfg = Inr merged \<and>
           lookup merged m = Some entry \<and> isinstance_dict entry \<and>
           lookup entry ''key'' = Some k"
proof -
  from assms(2) obtain s where s: "src_cfg = JObj s" by (cases src_cfg) simp_all
  from assms(4) obtain d where d: "dst_cfg = JObj d" by (cases dst_cfg) simp_all
  from assms(1) s have dist: "distinct (map fst s)" by simp
  from assms(4) d obtain e where e: "map_of d m = Some e"
    using names_dom [of m dst_cfg] by auto
  from assms(2) s have sp: "map_of s m = Some src_params" by simp
  let ?entry = "JObj (setitem ''key'' k (ensure_dict (strip_entry e)))"
  have "map_of (copy_pass s (strip_pass d)) m = Some ?entry"
    using e sp assms(3) by (simp add: lookup_apply_binds [OF dist])
  then show ?thesis
    unfolding s d apply_binds_dicts by (simp add: map_of_setitem)
qed

theorem copy_fidelity_witness:
  "unique_keys falsy_src \<and>
   lookup falsy_src ''move'' = Some (JObj [(''key'', JNull)]) \<and>
   lookup (JObj [(''key'', JNull)]) ''key'' = Some JNull \<and>
   ''move'' \<in> names odd_dst \<and>
   (\<exists>merged entry. apply_binds falsy_src odd_dst = Inr merged \<and>
      lookup merged ''move'' = Some entry \<and> isinstance_dict entry \<and>
      lookup entry ''key'' = Some JNull)"
  using copy_fidelity [of falsy_src "''move''" "JObj [(''key'', JNull)]" JNull odd_dst]
  by (simp add: falsy_src_def odd_dst_def)

text \<open>
  Claim C2 (strip result). Let the source be a dict that holds no name twice. For every
  module name \<open>m\<close> of the target for which the source has nothing, or something that is
  not a dict, or a dict without \<^verbatim>\<open>key\<close>, the entry for \<open>m\<close> in the merged target has
  no \<^verbatim>\<open>key\<close> field. In particular the merge with the empty source \<^verbatim>\<open>{}\<close> returns
  exactly what pass 1 leaves, in which no entry has a \<^verbatim>\<open>key\<close> field.
\<close>

theorem strip_result:
  assumes "unique_keys src_cfg"
    and "isinstance_dict src_cfg"
    and "m \<in> names dst_cfg"
    and "\<forall>src_params. lookup src_cfg m = Some src_params \<longrightarrow> lookup src_params ''key'' = None"
  shows "(\<exists>merged entry. apply_binds src_cfg dst_cfg = Inr merged \<and>
            lookup merged m = Some entry \<and> lookup entry ''key'' = None) \<and>
         apply_binds (JObj []) (JObj d) = Inr (JObj (strip_pass d)) \<and>
         (\<forall>m' entry. lookup (JObj (strip_pass d)) m' = Some entry \<longrightarrow>
            lookup entry ''key'' = None)"
proof -
  from assms(2) obtain s where s: "src_cfg = JObj s" by (cases src_cfg) simp_all
  from assms(3) obtain d0 where d0: "dst_cfg = JObj d0" by (cases dst_cfg) simp_all
  from assms(1) s have dist: "distinct (map fst s)" by simp
  from assms(3) d0 obtain e where e: "map_of d0 m = Some e"
    using names_dom [of m dst_cfg] by auto
  have "map_of (copy_pass s (strip_pass d0)) m = Some (strip_entry e)"
    using e assms(4) s by (auto simp: lookup_apply_binds [OF dist] split: option.splits)
  then have "\<exists>merged entry. apply_binds src_cfg dst_cfg = Inr merged \<and>
            lookup merged m = Some entry \<and> lookup entry ''key'' = None"
    unfolding s d0 apply_binds_dicts by (simp add: lookup_strip_entry)
  moreover have "apply_binds (JObj []) (JObj d) = Inr (JObj (strip_pass d))"
    by (simp add: apply_binds_def)
  moreover have "\<forall>m' entry. lookup (JObj (strip_pass d)) m' = Some entry \<longrightarrow>
            lookup entry ''key'' = None"
    by (auto simp: map_of_strip_pass lookup_strip_entry)
  ultimately show ?thesis by blast
qed

theorem strip_result_witness:
  "unique_keys scenario_src \<and> isinstance_dict scenario_src \<and> ''chat'' \<in> names scenario_dst \<and>
   lookup scenario_src ''chat'' = None \<and>
   (\<exists>merged. apply_binds scenario_src scenario_dst = Inr merged \<and>
      lookup merged ''chat'' = Some (JObj [])) \<and>
   apply_binds (JObj []) (JObj [(''move'', JObj [(''key'', JStr ''UP'')])])
     = Inr (JObj [(''move'', JObj [])])"
  using strip_result [of scenario_src "''chat''" scenario_dst
      "[(''move'', JObj [(''key'', JStr ''UP'')])]"]
  by (simp add: scenario_src_def scenario_dst_def apply_binds_def copy_step_def)

text \<open>
  Claim C3 (module-set preservation). For every source document and every target
  document, \<^verbatim>\<open>apply_binds\<close> returns a document with exactly the module names of the
  target: none is added, in particular none that only the source has, and none is
  removed.
\<close>

theorem module_set_preserved:
  "\<exists>merged. apply_binds (JObj s) (JObj d) = Inr merged \<and> isinstance_dict merged \<and>
     names merged = names (JObj d)"
  by (simp add: apply_binds_dicts keys_copy_pass keys_strip_pass)

text \<open>
  Claim C6 (field isolation). For every module \<open>m\<close> of the target and every field name
  \<open>f\<close> other than \<^verbatim>\<open>key\<close>, the merged target has under \<open>m\<close> an entry in which \<open>f\<close> is
  what it was before the merge: the same value if the field was there, absent if it
  was not. An entry that was a dict is still a dict.
\<close>

theorem field_isolation:
  assumes "isinstance_dict src_cfg"
    and "lookup dst_cfg m = Some entry"
    and "f \<noteq> ''key''"
  shows "\<exists>merged entry'. apply_binds src_cfg dst_cfg = Inr merged \<and>
           lookup merged m = Some entry' \<and> lookup entry' f = lookup entry f \<and>
           (isinstance_dict entry \<longrightarrow> isinstance_dict entry')"
proof -
  from assms(1) obtain s where s: "src_cfg = JObj s" by (cases src_cfg) simp_all
  from assms(2) obtain d where d: "dst_cfg = JObj d" by (cases dst_cfg) simp_all
  from assms(2) d have "map_of (strip_pass d) m = Some (strip_entry entry)"
    by (simp add: map_of_strip_pass)
  from copy_pass_fields [OF this assms(3), of s]
  obtain e' where "map_of (copy_pass s (strip_pass d)) m = Some e'"
    and "lookup e' f = lookup (strip_entry entry) f"
    and "isinstance_dict (strip_entry entry) \<longrightarrow> isinstance_dict e'"
    by blast
  moreover have "isinstance_dict entry \<longrightarrow> isinstance_dict (strip_entry entry)"
    by (cases entry) simp_all
  ultimately show ?thesis
    unfolding s d apply_binds_dicts using assms(3) by (simp add: lookup_strip_entry)
qed

theorem field_isolation_witness:
  "isinstance_dict scenario_src \<and>
   lookup scenario_dst ''move'' =
     Some (JObj [(''key'', JStr ''UP''), (''sens'', JFloat 0x3FF0000000000000)]) \<and>
   ''sens'' \<noteq> ''key'' \<and>
   (\<exists>merged entry'. apply_binds scenario_src scenario_dst = Inr merged \<and>
      lookup merged ''move'' = Some entry' \<and>
      lookup entry' ''sens'' = Some (JFloat 0x3FF0000000000000) \<and> isinstance_dict entry')"
  using field_isolation [of scenario_src scenario_dst "''move''"
      "JObj [(''key'', JStr ''UP''), (''sens'', JFloat 0x3FF0000000000000)]" "''sens''"]
  by (simp add: scenario_src_def scenario_dst_def)

text \<open>
  Claim C9 (a target entry that is not a dict is replaced). Let the source hold no name
  twice. For every module name \<open>m\<close> under which the source has a dict with a \<^verbatim>\<open>key\<close>
  field of value \<open>k\<close> and the target has an entry that is not a dict, the merged
  target has under \<open>m\<close> the dict with the single field \<^verbatim>\<open>key\<close> of value \<open>k\<close>; the old
  entry is gone.
\<close>

theorem non_mapping_entry_replaced:
  assumes "unique_keys src_cfg"
    and "lookup src_cfg m = Some src_params"
    and "lookup src_params ''key'' = Some k"
    and "lookup dst_cfg m = Some entry"
    and "\<not> isinstance_dict entry"
  shows "\<exists>merged. apply_binds src_cfg dst_cfg = Inr merged \<and>
           lookup merged m = Some (JObj [(''key'', k)])"
proof -
  from assms(2) obtain s where s: "src_cfg = JObj s" by (cases src_cfg) simp_all
  from assms(4) obtain d where d: "dst_cfg = JObj d" by (cases dst_cfg) simp_all
  from assms(1) s have dist: "distinct (map fst s)" by simp
  from assms(5) have "ensure_dict (strip_entry entry) = []"
    by (cases entry) simp_all
  then have "map_of (copy_pass s (strip_pass d)) m = Some (JObj [(''key'', k)])"
    using assms(2-4) s d by (simp add: lookup_apply_binds [OF dist])
  then show ?thesis
    unfolding s d apply_binds_dicts by simp
qed

theorem non_mapping_entry_replaced_witness:
  "unique_keys falsy_src \<and>
   lookup falsy_src ''zoom'' = Some (JObj [(''key'', JArr [])]) \<and>
   lookup (JObj [(''key'', JArr [])]) ''key'' = Some (JArr []) \<and>
   lookup odd_dst ''zoom'' = Some (JInt 3) \<and> \<not> isinstance_dict (JInt 3) \<and>
   (\<exists>merged. apply_binds falsy_src odd_dst = Inr merged \<and>
      lookup merged ''zoom'' = Some (JObj [(''key'', JArr [])]))"
  using non_mapping_entry_replaced [of falsy_src "''zoom''" "JObj [(''key'', JArr [])]"
      "JArr []" odd_dst "JInt 3"]
  by (simp add: falsy_src_def odd_dst_def)

text \<open>Pass 2 does nothing when no item of the source has a \<^verbatim>\<open>key\<close> for a name of the target.\<close>

lemma copy_step_idle:
  "lookup sp ''key'' = None \<or> map_of d m = None \<Longrightarrow> copy_step (m, sp) d = d"
  by (auto simp: copy_step_def split: option.splits)

lemma copy_pass_idle:
  "\<forall>(m, sp) \<in> set s. m \<in> set (map fst d) \<longrightarrow> lookup sp ''key'' = None \<Longrightarrow>
   copy_pass s d = d"
proof (induction s)
  case Nil
  then show ?case by simp
next
  case (Cons item s)
  obtain m sp where item: "item = (m, sp)" by (cases item)
  from Cons.prems item have "lookup sp ''key'' = None \<or> map_of d m = None"
    by (auto simp: map_of_eq_None_iff)
  then have "copy_step item d = d"
    unfolding item by (rule copy_step_idle)
  with Cons show ?case by simp
qed

text \<open>An entry that has a \<^verbatim>\<open>key\<close> keeps one through pass 2, and a matching item gives one.\<close>

lemma copy_pass_keeps_key:
  "map_of d m = Some e \<Longrightarrow> lookup e ''key'' \<noteq> None \<Longrightarrow>
   \<exists>e'. map_of (copy_pass s d) m = Some e' \<and> lookup e' ''key'' \<noteq> None"
proof (induction s arbitrary: d e)
  case Nil
  then show ?case by simp
next
  case (Cons item s)
  obtain m' sp where item: "item = (m', sp)" by (cases item)
  have "\<exists>e1. map_of (copy_step item d) m = Some e1 \<and> lookup e1 ''key'' \<noteq> None"
    using Cons.prems
    by (cases "lookup sp ''key''") (simp_all add: item map_of_copy_step map_of_setitem)
  then obtain e1 where "map_of (copy_step item d) m = Some e1" "lookup e1 ''key'' \<noteq> None"
    by blast
  from Cons.IH [OF this] show ?case by simp
qed

lemma copy_pass_sets_key:
  "(m, sp) \<in> set s \<Longrightarrow> lookup sp ''key'' \<noteq> None \<Longrightarrow> map_of d m \<noteq> None \<Longrightarrow>
   \<exists>e'. map_of (copy_pass s d) m = Some e' \<and> lookup e' ''key'' \<noteq> None"
proof (induction s arbitrary: d)
  case Nil
  then show ?case by simp
next
  case (Cons item s)
  from Cons.prems(3) obtain e where e: "map_of d m = Some e" by auto
  show ?case
  proof (cases "item = (m, sp)")
    case True
    from Cons.prems(2) obtain k where "lookup sp ''key'' = Some k" by auto
    then have "\<exists>e1. map_of (copy_step item d) m = Some e1 \<and> lookup e1 ''key'' \<noteq> None"
      using e True by (simp add: map_of_copy_step map_of_setitem)
    then obtain e1 where "map_of (copy_step item d) m = Some e1" "lookup e1 ''key'' \<noteq> None"
      by blast
    from copy_pass_keeps_key [OF this] show ?thesis by simp
  next
    case False
    with Cons.prems(1) have in_s: "(m, sp) \<in> set s" by simp
    obtain m' sp' where item: "item = (m', sp')" by (cases item)
    have "map_of (copy_step item d) m \<noteq> None"
      using e by (simp add: item map_of_copy_step split: option.splits)
    from Cons.IH [OF in_s Cons.prems(2) this] show ?thesis by simp
  qed
qed

text \<open>
  Claim C8 (order of the two passes), as the code has it. The claim says that copying
  first and stripping second gives the same document as \<^verbatim>\<open>apply_binds\<close>, which strips
  first and copies second. That fails as soon as one key is copied: stripping last
  removes it again. What holds is that the two orders agree exactly when no item of
  the source has a \<^verbatim>\<open>key\<close> field for a module of the target, that is, when pass 2
  copies nothing.
\<close>

theorem passes_commute_iff:
  "apply_binds_copy_first (JObj s) (JObj d) = apply_binds (JObj s) (JObj d) \<longleftrightarrow>
   (\<forall>(m, src_params) \<in> set s. m \<in> names (JObj d) \<longrightarrow> lookup src_params ''key'' = None)"
proof
  assume r: "\<forall>(m, src_params) \<in> set s. m \<in> names (JObj d) \<longrightarrow> lookup src_params ''key'' = None"
  then have "copy_pass s d = d"
    by (intro copy_pass_idle) simp
  moreover from r have "copy_pass s (strip_pass d) = strip_pass d"
    by (intro copy_pass_idle) (simp add: keys_strip_pass)
  ultimately show "apply_binds_copy_first (JObj s) (JObj d) = apply_binds (JObj s) (JObj d)"
    by (simp add: apply_binds_copy_first_def apply_binds_def)
next
  assume eq: "apply_binds_copy_first (JObj s) (JObj d) = apply_binds (JObj s) (JObj d)"
  then have same: "strip_pass (copy_pass s d) = copy_pass s (strip_pass d)"
    by (simp add: apply_binds_copy_first_def apply_binds_def)
  show "\<forall>(m, src_params) \<in> set s. m \<in> names (JObj d) \<longrightarrow> lookup src_params ''key'' = None"
  proof (rule ccontr)
    assume "\<not> ?thesis"
    then have "\<exists>m sp. (m, sp) \<in> set s \<and> m \<in> set (map fst d) \<and> lookup sp ''key'' \<noteq> None"
      by (simp add: split_def) (metis prod.collapse)
    then obtain m sp where in_s: "(m, sp) \<in> set s" and in_d: "m \<in> set (map fst d)"
      and key: "lookup sp ''key'' \<noteq> None"
      by blast
    from in_d have "map_of (strip_pass d) m \<noteq> None"
      by (simp add: map_of_strip_pass map_of_eq_None_iff)
    from copy_pass_sets_key [OF in_s key this]
    obtain e' where e': "map_of (copy_pass s (strip_pass d)) m = Some e'"
      and has: "lookup e' ''key'' \<noteq> None"
      by blast
    from e' same have "map_of (strip_pass (copy_pass s d)) m = Some e'" by simp
    then obtain e0 where "e' = strip_entry e0"
      by (auto simp: map_of_strip_pass)
    with has show False by (simp add: lookup_strip_entry)
  qed
qed

theorem passes_commute_iff_witness:
  "''jump'' \<notin> names (JObj [(''move'', JObj [(''key'', JStr ''UP'')])]) \<and>
   apply_binds_copy_first (JObj [(''jump'', JObj [(''key'', JStr ''SPACE'')])])
     (JObj [(''move'', JObj [(''key'', JStr ''UP'')])])
   = apply_binds (JObj [(''jump'', JObj [(''key'', JStr ''SPACE'')])])
     (JObj [(''move'', JObj [(''key'', JStr ''UP'')])])"
  using passes_commute_iff [of "[(''jump'', JObj [(''key'', JStr ''SPACE'')])]"
      "[(''move'', JObj [(''key'', JStr ''UP'')])]"]
  by simp

theorem passes_commute_counterexample:
  "apply_binds_copy_first (JObj [(''move'', JObj [(''key'', JStr ''W'')])])
     (JObj [(''move'', JObj [(''key'', JStr ''UP'')])])
   \<noteq> apply_binds (JObj [(''move'', JObj [(''key'', JStr ''W'')])])
     (JObj [(''move'', JObj [(''key'', JStr ''UP'')])])"
  by (simp add: apply_binds_copy_first_def apply_binds_def copy_step_def)

section \<open>Claims about loading and the processing loop\<close>

lemma load_json_cases:
  "load_json fs path = Inl e \<Longrightarrow> e = LoadError path"
  by (auto simp: load_json_def split: option.splits content.splits)

lemma process_targets_sibling:
  "\<not> ASK_WHERE_TO_SAVE cfg \<Longrightarrow>
   process_targets P cfg cof cod n src_cfg dst_paths fs gen = (Inr outs, fs') \<Longrightarrow>
   outs = gen @ map (sibling_path P (OUTPUT_NAME_PATTERN cfg)) dst_paths"
proof (induction dst_paths arbitrary: fs gen)
  case Nil
  then show ?case by simp
next
  case (Cons dst_path rest)
  from Cons.prems(2) obtain fs1 where
    "process_targets P cfg cof cod n src_cfg rest fs1
       (gen @ [out_path_for P cfg cof cod n dst_path]) = (Inr outs, fs')"
    by (auto simp: Let_def split: sum.splits)
  from Cons.IH [OF Cons.prems(1) this] Cons.prems(1) show ?case
    by (simp add: out_path_for_def)
qed

lemma format_shipped: "format (OUTPUT_NAME_PATTERN shipped) base = base @ ''_mybind.json''"
  by (simp add: format_def shipped_def)

text \<open>
  Claim C4 (output paths beside the targets). With \<^verbatim>\<open>ASK_WHERE_TO_SAVE\<close> off, a run of
  \<^verbatim>\<open>main\<close> that ends normally had at least one target and returns as many output
  paths as there were targets, in the same order: the i-th is the directory of the
  i-th target joined with the naming pattern applied to the stem of that target's
  file name. With the pattern of the script, \<^verbatim>\<open>"{base}_mybind.json"\<close>, the file name
  is the stem followed by \<^verbatim>\<open>_mybind.json\<close>.
\<close>

theorem sibling_outputs:
  assumes "\<not> ASK_WHERE_TO_SAVE cfg"
    and "main P cfg dlg fs = (Inr outs, fs')"
  shows "picked_dsts dlg \<noteq> [] \<and> length outs = length (picked_dsts dlg) \<and>
         (\<forall>i < length outs. outs ! i =
            join P (dirname P (picked_dsts dlg ! i))
              (format (OUTPUT_NAME_PATTERN cfg)
                 (fst (splitext P (basename P (picked_dsts dlg ! i)))))) \<and>
         format (OUTPUT_NAME_PATTERN shipped) base = base @ ''_mybind.json''"
proof -
  from assms(2) have ne: "picked_src dlg \<noteq> []" "picked_dsts dlg \<noteq> []"
    by (auto simp: main_def split: if_splits)
  with assms(2) obtain src_cfg where
    "process_targets P cfg (chosen_out_file cfg dlg) (chosen_out_dir cfg dlg)
       (length (picked_dsts dlg)) src_cfg (picked_dsts dlg) fs [] = (Inr outs, fs')"
    by (auto simp: main_def split: sum.splits)
  from process_targets_sibling [OF assms(1) this]
  have "outs = map (sibling_path P (OUTPUT_NAME_PATTERN cfg)) (picked_dsts dlg)" by simp
  then show ?thesis
    using ne by (simp add: sibling_path_def format_shipped)
qed

lemma run_two_targets:
  "fst (main posixpath shipped two_targets disk) = Inr [''/c/a_mybind.json'', ''/c/b_mybind.json'']"
  by (simp add: main_def two_targets_def disk_def shipped_def chosen_out_file_def chosen_out_dir_def
      load_json_def save_json_def apply_binds_def copy_step_def scenario_src_def scenario_dst_def
      odd_dst_def out_path_for_def Let_def
      sibling_path_def posixpath_def posix_basename_def posix_dirname_def
      posix_splitext_def posix_join_def format_def)

theorem sibling_outputs_witness:
  "\<not> ASK_WHERE_TO_SAVE shipped \<and>
   fst (main posixpath shipped two_targets disk) = Inr [''/c/a_mybind.json'', ''/c/b_mybind.json''] \<and>
   picked_dsts two_targets = [''/c/a.json'', ''/c/b.json''] \<and>
   join posixpath (dirname posixpath ''/c/b.json'')
     (format (OUTPUT_NAME_PATTERN shipped) (fst (splitext posixpath (basename posixpath ''/c/b.json''))))
     = ''/c/b_mybind.json''"
proof -
  let ?outs = "[''/c/a_mybind.json'', ''/c/b_mybind.json'']"
  have run: "main posixpath shipped two_targets disk =
               (Inr ?outs, snd (main posixpath shipped two_targets disk))"
    using run_two_targets by (metis prod.collapse)
  have ask: "\<not> ASK_WHERE_TO_SAVE shipped" by (simp add: shipped_def)
  have dsts: "picked_dsts two_targets = [''/c/a.json'', ''/c/b.json'']"
    by (simp add: two_targets_def)
  have "\<forall>i < length ?outs. ?outs ! i =
          join posixpath (dirname posixpath (picked_dsts two_targets ! i))
            (format (OUTPUT_NAME_PATTERN shipped)
               (fst (splitext posixpath (basename posixpath (picked_dsts two_targets ! i)))))"
    using sibling_outputs [OF ask run, of "[]"] by blast
  then have "1 < length ?outs \<longrightarrow> ?outs ! 1 =
          join posixpath (dirname posixpath (picked_dsts two_targets ! 1))
            (format (OUTPUT_NAME_PATTERN shipped)
               (fst (splitext posixpath (basename posixpath (picked_dsts two_targets ! 1)))))"
    by (rule spec)
  then show ?thesis using ask run_two_targets dsts by simp
qed

lemma process_targets_append:
  "process_targets P cfg cof cod n src_cfg pre fs gen = (Inr outs, fs1) \<Longrightarrow>
   process_targets P cfg cof cod n src_cfg (pre @ rest) fs gen =
   process_targets P cfg cof cod n src_cfg rest fs1 outs"
proof (induction pre arbitrary: fs gen)
  case Nil
  then show ?case by simp
next
  case (Cons dst_path pre)
  from Cons.prems obtain dst_cfg updated fs2 where
    l: "load_json fs dst_path = Inr dst_cfg" and a: "apply_binds src_cfg dst_cfg = Inr updated"
    and sv: "save_json updated (out_path_for P cfg cof cod n dst_path) fs = Inr fs2"
    and r: "process_targets P cfg cof cod n src_cfg pre fs2
       (gen @ [out_path_for P cfg cof cod n dst_path]) = (Inr outs, fs1)"
    by (auto simp: Let_def split: sum.splits)
  from Cons.IH [OF r] l a sv show ?case by simp
qed

lemma save_json_keeps:
  "save_json obj path fs = Inr fs' \<Longrightarrow> \<exists>v. files fs q = Some (Json v) \<Longrightarrow>
   \<exists>v. files fs' q = Some (Json v)"
  by (auto simp: save_json_def split: if_splits)

lemma save_json_written:
  "save_json obj path fs = Inr fs' \<Longrightarrow> files fs' path = Some (Json obj)"
  by (auto simp: save_json_def split: if_splits)

text \<open>After rounds that all went through, every path of the list holds a written document.\<close>

lemma process_targets_on_disk:
  "process_targets P cfg cof cod n src_cfg dst_paths fs gen = (Inr outs, fs') \<Longrightarrow>
   \<forall>q \<in> set gen. \<exists>v. files fs q = Some (Json v) \<Longrightarrow>
   \<forall>q \<in> set outs. \<exists>v. files fs' q = Some (Json v)"
proof (induction dst_paths arbitrary: fs gen)
  case Nil
  then show ?case by simp
next
  case (Cons dst_path rest)
  let ?out = "out_path_for P cfg cof cod n dst_path"
  from Cons.prems(1) obtain updated fs2 where
    sv: "save_json updated ?out fs = Inr fs2"
    and r: "process_targets P cfg cof cod n src_cfg rest fs2 (gen @ [?out]) = (Inr outs, fs')"
    by (auto simp: Let_def split: sum.splits)
  have "\<forall>q \<in> set (gen @ [?out]). \<exists>v. files fs2 q = Some (Json v)"
    using Cons.prems(2) save_json_keeps [OF sv] save_json_written [OF sv] by auto
  from Cons.IH [OF r this] show ?case .
qed

text \<open>
  Claim C5 (a target that fails to load ends the run). Let the targets be \<open>pre\<close>, then
  \<open>p\<close>, then \<open>post\<close>; let the source load, let the rounds for \<open>pre\<close> all go through,
  returning the paths \<open>outs\<close> and leaving the file system \<open>fs1\<close>, and let loading \<open>p\<close>
  fail there. Then \<^verbatim>\<open>main\<close> ends with the load error that names \<open>p\<close>, and the file
  system it leaves is \<open>fs1\<close>: nothing was written for \<open>p\<close>, nothing of \<open>post\<close> was
  loaded, merged or written, and the outputs of the earlier rounds are on disk as
  those rounds left them.
\<close>

theorem halt_on_load_failure:
  assumes "picked_src dlg \<noteq> []"
    and "picked_dsts dlg = pre @ p # post"
    and "load_json fs (picked_src dlg) = Inr src_cfg"
    and "process_targets P cfg (chosen_out_file cfg dlg) (chosen_out_dir cfg dlg)
           (length (picked_dsts dlg)) src_cfg pre fs [] = (Inr outs, fs1)"
    and "load_json fs1 p = Inl e"
  shows "main P cfg dlg fs = (Inl (LoadError p), fs1) \<and>
         (\<forall>q \<in> set outs. \<exists>v. files fs1 q = Some (Json v))"
proof -
  from assms(5) have "load_json fs1 p = Inl (LoadError p)"
    using load_json_cases by blast
  then have "process_targets P cfg (chosen_out_file cfg dlg) (chosen_out_dir cfg dlg)
           (length (picked_dsts dlg)) src_cfg (pre @ p # post) fs [] = (Inl (LoadError p), fs1)"
    by (simp add: process_targets_append [OF assms(4)])
  moreover have "\<forall>q \<in> set outs. \<exists>v. files fs1 q = Some (Json v)"
    using process_targets_on_disk [OF assms(4)] by simp
  ultimately show ?thesis
    using assms(1-3) by (simp add: main_def)
qed

lemmas run_defs =
  main_def disk_def shipped_def chosen_out_file_def chosen_out_dir_def
  load_json_def save_json_def apply_binds_def copy_step_def scenario_src_def scenario_dst_def
  odd_dst_def out_path_for_def Let_def
  sibling_path_def posixpath_def posix_basename_def posix_dirname_def
  posix_splitext_def posix_join_def format_def

lemma first_round:
  "fst (process_targets posixpath shipped (chosen_out_file shipped gone_second)
          (chosen_out_dir shipped gone_second) (length (picked_dsts gone_second))
          scenario_src [''/c/a.json''] disk [])
   = Inr [''/c/a_mybind.json'']"
  by (simp add: run_defs gone_second_def)

lemma first_round_disk:
  "files (snd (process_targets posixpath shipped (chosen_out_file shipped gone_second)
          (chosen_out_dir shipped gone_second) (length (picked_dsts gone_second))
          scenario_src [''/c/a.json''] disk [])) =
   (files disk)(''/c/a_mybind.json'' \<mapsto>
      Json (JObj [(''move'', JObj [(''sens'', JFloat 0x3FF0000000000000), (''key'', JStr ''W'')]),
                  (''chat'', JObj [])]))"
  by (simp add: run_defs gone_second_def)

theorem halt_on_load_failure_witness:
  "picked_src gone_second \<noteq> [] \<and>
   picked_dsts gone_second = [''/c/a.json''] @ ''/c/gone.json'' # [''/c/b.json''] \<and>
   load_json disk (picked_src gone_second) = Inr scenario_src \<and>
   fst (main posixpath shipped gone_second disk) = Inl (LoadError ''/c/gone.json'') \<and>
   files (snd (main posixpath shipped gone_second disk)) ''/c/a_mybind.json'' \<noteq> None \<and>
   files (snd (main posixpath shipped gone_second disk)) ''/c/gone_mybind.json'' = None \<and>
   files (snd (main posixpath shipped gone_second disk)) ''/c/b_mybind.json'' = None"
proof -
  let ?run = "process_targets posixpath shipped (chosen_out_file shipped gone_second)
          (chosen_out_dir shipped gone_second) (length (picked_dsts gone_second))
          scenario_src [''/c/a.json''] disk []"
  have h1: "picked_src gone_second \<noteq> []" by (simp add: gone_second_def)
  have h2: "picked_dsts gone_second = [''/c/a.json''] @ ''/c/gone.json'' # [''/c/b.json'']"
    by (simp add: gone_second_def)
  have h3: "load_json disk (picked_src gone_second) = Inr scenario_src"
    by (simp add: gone_second_def load_json_def disk_def)
  have h4: "?run = (Inr [''/c/a_mybind.json''], snd ?run)"
    using first_round by (metis prod.collapse)
  have d: "files (snd ?run) =
      (files disk)(''/c/a_mybind.json'' \<mapsto>
        Json (JObj [(''move'', JObj [(''sens'', JFloat 0x3FF0000000000000), (''key'', JStr ''W'')]),
                    (''chat'', JObj [])]))"
    by (rule first_round_disk)
  have g1: "files (snd ?run) ''/c/a_mybind.json'' \<noteq> None"
    unfolding d by simp
  have g2: "files (snd ?run) ''/c/gone_mybind.json'' = None"
    unfolding d by (simp add: disk_def)
  have g3: "files (snd ?run) ''/c/b_mybind.json'' = None"
    unfolding d by (simp add: disk_def)
  have "files (snd ?run) ''/c/gone.json'' = None"
    unfolding d by (simp add: disk_def)
  then have h5: "load_json (snd ?run) ''/c/gone.json'' = Inl (LoadError ''/c/gone.json'')"
    by (simp add: load_json_def)
  from halt_on_load_failure [OF h1 h2 h3 h4 h5]
  have "main posixpath shipped gone_second disk = (Inl (LoadError ''/c/gone.json''), snd ?run)"
    by blast
  then show ?thesis
    using h1 h2 h3 g1 g2 g3 by simp
qed

text \<open>
  Claim C7 (a root that is not an object), as the code has it. The claim says that
  loading a file whose JSON root is not an object fails with a load error. It does
  not: \<^verbatim>\<open>load_json\<close> returns whatever \<^verbatim>\<open>json.load\<close> parsed and never looks at the
  root. What holds is that \<^verbatim>\<open>load_json\<close> returns the value \<open>v\<close> exactly when the
  file holds the text of \<open>v\<close>, object or not, and that it ends the run with the load
  error naming the path exactly when the file cannot be read or is not JSON.
\<close>

theorem load_accepts_any_root:
  "(load_json fs path = Inr v \<longleftrightarrow> files fs path = Some (Json v)) \<and>
   (load_json fs path = Inl e \<longleftrightarrow>
      e = LoadError path \<and> (files fs path = None \<or> files fs path = Some NotJson))"
  by (auto simp: load_json_def split: option.splits content.splits)

theorem load_rejects_non_object_counterexample:
  "files disk ''/c/list.json'' = Some (Json (JArr [])) \<and> \<not> isinstance_dict (JArr []) \<and>
   load_json disk ''/c/list.json'' = Inr (JArr [])"
  by (simp add: load_json_def disk_def)

text \<open>
  What the run then does with such a target: \<^verbatim>\<open>dst_cfg.items()\<close> raises
  \<^verbatim>\<open>AttributeError\<close>, which nothing catches, and nothing is written.
\<close>

lemma non_object_target_halts:
  assumes "load_json fs p = Inr v" and "\<not> isinstance_dict v"
  shows "process_targets P cfg cof cod n src_cfg (p # rest) fs gen = (Inl AttributeError, fs)"
proof -
  from assms(2) have "apply_binds src_cfg v = Inl AttributeError"
    by (cases v) (simp_all add: apply_binds_def)
  with assms(1) show ?thesis by simp
qed

section \<open>The source document is only read\<close>

lemma set_pop_subset: "set (pop k fs) \<subseteq> set fs"
  by (induction fs) auto

lemma strip_loop_next: "next_addr (strip_loop items st) = next_addr st"
  by (induction items st rule: strip_loop.induct) (auto split: option.splits)

text \<open>Pass 1 writes only to dicts that are entries of the list it runs over.\<close>

lemma strip_loop_frame:
  "\<forall>m. (m, PDict a) \<notin> set items \<Longrightarrow> objs (strip_loop items st) a = objs st a"
proof (induction items st rule: strip_loop.induct)
  case (1 st)
  then show ?case by simp
next
  case (2 module params rest st)
  have "params \<noteq> PDict a" using "2.prems" by auto
  then have "\<And>b fs. as_dict st params = Some (b, fs) \<Longrightarrow> b \<noteq> a"
    by (cases params) (auto split: option.splits)
  then show ?case
    using "2.IH" "2.prems" by (auto split: option.splits)
qed

lemma strip_loop_inv:
  assumes "objs st dst = Some d" and "dst \<notin> entries st dst"
  shows "frame_inv st dst (strip_loop d st)"
proof -
  have self: "\<forall>m. (m, PDict dst) \<notin> set d"
    using assms by (auto simp: entries_def)
  then have dst: "objs (strip_loop d st) dst = Some d"
    using assms(1) by (simp add: strip_loop_frame)
  have "\<And>a. a \<notin> written st dst \<Longrightarrow> objs (strip_loop d st) a = objs st a"
    using assms(1) by (intro strip_loop_frame) (auto simp: written_def entries_def)
  moreover have "\<And>m a. (m, PDict a) \<in> set d \<Longrightarrow> a \<noteq> dst \<and> a \<in> written st dst"
    using assms self by (auto simp: written_def entries_def)
  ultimately show ?thesis
    unfolding frame_inv_def using dst by (simp add: strip_loop_next)
qed

text \<open>One round of pass 2 keeps the invariant, and so does the whole pass.\<close>

lemma copy_body_inv:
  assumes "frame_inv st0 dst st" and "dst < next_addr st0"
  shows "frame_inv st0 dst (copy_body dst item st)"
proof -
  obtain module src_params where item: "item = (module, src_params)" by (cases item)
  from assms(1) obtain d where d: "objs st dst = Some d"
    by (auto simp: frame_inv_def)
  show ?thesis
  proof (cases "map_of d module")
    case None
    then show ?thesis using assms(1) d by (simp add: copy_body_def item)
  next
    case (Some entry)
    show ?thesis
    proof (cases "as_dict st src_params")
      case None
      then show ?thesis using assms(1) d Some by (simp add: copy_body_def item)
    next
      case sp: (Some p)
      obtain sa sfs where p: "p = (sa, sfs)" by (cases p)
      show ?thesis
      proof (cases "map_of sfs ''key''")
        case None
        then show ?thesis using assms(1) d Some sp p by (simp add: copy_body_def item)
      next
        case k: (Some k)
        show ?thesis
        proof (cases "as_dict st entry")
          case None
          have st': "copy_body dst item st =
            st\<lparr>objs := (objs st)(dst \<mapsto> setitem module (PDict (next_addr st)) d,
                                next_addr st \<mapsto> setitem ''key'' k []),
               next_addr := Suc (next_addr st)\<rparr>"
            using d Some sp p k None by (simp add: copy_body_def item)
          have lt: "dst < next_addr st" using assms by (auto simp: frame_inv_def)
          have ent: "\<And>m a. (m, PDict a) \<in> set (setitem module (PDict (next_addr st)) d) \<Longrightarrow>
                      a = next_addr st \<or> (m, PDict a) \<in> set d"
            using set_setitem_subset [of module "PDict (next_addr st)" d] by auto
          let ?st' = "copy_body dst item st"
          have c1: "next_addr st0 \<le> next_addr ?st'" and c2: "objs ?st' dst \<noteq> None"
            using assms(1) lt by (auto simp: st' frame_inv_def)
          have c3: "\<forall>a. a \<notin> written st0 dst \<longrightarrow> a < next_addr st0 \<longrightarrow> objs ?st' a = objs st0 a"
            using assms(1) by (auto simp: st' frame_inv_def written_def)
          have c4: "\<forall>d' m a. objs ?st' dst = Some d' \<longrightarrow> (m, PDict a) \<in> set d' \<longrightarrow>
                      a \<noteq> dst \<and> (a \<in> written st0 dst \<or> next_addr st0 \<le> a)"
          proof (intro allI impI)
            fix d' m a
            assume "objs ?st' dst = Some d'" and "(m, PDict a) \<in> set d'"
            with lt have "(m, PDict a) \<in> set (setitem module (PDict (next_addr st)) d)"
              by (simp add: st')
            then consider "a = next_addr st" | "(m, PDict a) \<in> set d"
              using ent by blast
            then show "a \<noteq> dst \<and> (a \<in> written st0 dst \<or> next_addr st0 \<le> a)"
            proof cases
              case 1
              then show ?thesis using lt assms(1) by (auto simp: frame_inv_def)
            next
              case 2
              then show ?thesis using assms(1) d by (auto simp: frame_inv_def)
            qed
          qed
          show ?thesis
            unfolding frame_inv_def using c1 c2 c3 c4 by blast
        next
          case e: (Some q)
          obtain ea efs where q: "q = (ea, efs)" by (cases q)
          from e q have entry: "entry = PDict ea" and efs: "objs st ea = Some efs"
            by (cases entry; auto split: option.splits)+
          have st': "copy_body dst item st = st\<lparr>objs := (objs st)(ea \<mapsto> setitem ''key'' k efs)\<rparr>"
            using d Some sp p k e q by (simp add: copy_body_def item)
          from Some entry have "(module, PDict ea) \<in> set d"
            by (auto dest: map_of_SomeD)
          with assms(1) d have ea: "ea \<noteq> dst" "ea \<in> written st0 dst \<or> next_addr st0 \<le> ea"
            by (auto simp: frame_inv_def)
          show ?thesis
            unfolding st' frame_inv_def
            using assms(1) d ea by (auto simp: frame_inv_def)
        qed
      qed
    qed
  qed
qed

lemma copy_loop_inv:
  assumes "frame_inv st0 dst st" and "dst < next_addr st0"
    and "objs st0 src = Some s" and "src \<notin> written st0 dst" and "src < next_addr st0"
    and "n = length s"
  shows "\<exists>st'. copy_loop src dst n i st = Inr st' \<and> frame_inv st0 dst st'"
  using assms
proof (induction src dst n i st rule: copy_loop.induct)
  case (1 src dst n i st)
  have src: "objs st src = Some s"
    using "1.prems" by (auto simp: frame_inv_def)
  show ?case
  proof (cases "n \<le> i")
    case True
    then show ?thesis
      using src "1.prems" by (subst copy_loop.simps) simp
  next
    case False
    have "frame_inv st0 dst (copy_body dst (s ! i) st)"
      using "1.prems"(1,2) by (rule copy_body_inv)
    from "1.IH" [OF src _ False this "1.prems"(2-6)] "1.prems"(6)
    show ?thesis
      using src False "1.prems"(6) by (subst copy_loop.simps) simp
  qed
qed

text \<open>Dicts that are unchanged reach the same dicts.\<close>

lemma reach_mono:
  assumes "\<forall>a \<in> reach st src. objs st' a = objs st a" and "x \<in> reach st' src"
  shows "x \<in> reach st src"
  using assms(2)
proof (induction rule: reach.induct)
  case start
  show ?case by (rule reach.start)
next
  case (step b fs m v c)
  then have "objs st b = Some fs" using assms(1) by auto
  then show ?case using step by (auto intro: reach.step)
qed

lemma reach_mono':
  assumes "\<forall>a \<in> reach st src. objs st' a = objs st a" and "x \<in> reach st src"
  shows "x \<in> reach st' src"
  using assms(2)
proof (induction rule: reach.induct)
  case start
  show ?case by (rule reach.start)
next
  case (step b fs m v c)
  then have "objs st' b = Some fs" using assms(1) by auto
  then show ?case using step by (auto intro: reach.step)
qed

lemma reach_cong:
  "\<forall>a \<in> reach st src. objs st' a = objs st a \<Longrightarrow> reach st' src = reach st src"
  using reach_mono reach_mono' by blast


text \<open>
  Claim C10 (the source is only read). Let source and target be separate documents
  of the store: both are dicts, no dict that can be reached from the source is the
  target or one of the target's module entries, and the target is not an entry of
  itself. Then \<^verbatim>\<open>apply_binds\<close> returns normally, handing back the target, and every
  dict that can be reached from the source is afterwards what it was before, and
  the same dicts can be reached from it: the source document is unchanged.
\<close>

theorem source_unchanged:
  assumes "separate st src dst"
  shows "\<exists>st'. apply_binds_store (PDict src) (PDict dst) st = Inr (PDict dst, st') \<and>
           (\<forall>a \<in> reach st src. objs st' a = objs st a) \<and> reach st' src = reach st src"
proof -
  from assms obtain d where d: "objs st dst = Some d"
    by (auto simp: separate_def)
  have src_reach: "src \<in> reach st src" by (rule reach.start)
  with assms obtain s where s: "objs st src = Some s"
    by (auto simp: separate_def)
  have below: "\<And>a. objs st a \<noteq> None \<Longrightarrow> a < next_addr st"
    using assms by (auto simp: separate_def allocated_def)
  have outside: "\<And>a. a \<in> reach st src \<Longrightarrow> a \<notin> written st dst \<and> a < next_addr st"
    using assms below by (auto simp: separate_def)
  let ?st1 = "strip_loop d st"
  have inv1: "frame_inv st dst ?st1"
    using d assms by (intro strip_loop_inv) (auto simp: separate_def)
  have src1: "objs ?st1 src = Some s"
    using inv1 outside [OF src_reach] s by (auto simp: frame_inv_def)
  have "dst < next_addr st" using below d by simp
  from copy_loop_inv [where i = 0, OF inv1 this s _ _ refl] outside [OF src_reach]
  obtain st2 where loop: "copy_loop src dst (length s) 0 ?st1 = Inr st2"
    and inv2: "frame_inv st dst st2"
    by blast
  have run: "apply_binds_store (PDict src) (PDict dst) st = Inr (PDict dst, st2)"
    using d src1 loop by (simp add: apply_binds_store_def)
  have frame: "\<forall>a \<in> reach st src. objs st2 a = objs st a"
    using inv2 outside by (auto simp: frame_inv_def)
  from run frame reach_cong [OF frame] show ?thesis by blast
qed


lemma reach_two_docs: "a \<in> reach two_docs 0 \<Longrightarrow> a \<in> {0, 1, 4}"
  by (induction rule: reach.induct) (auto simp: two_docs_def split: if_splits)

lemma separate_two_docs: "separate two_docs 0 2"
proof -
  have r: "\<And>a. a \<in> reach two_docs 0 \<Longrightarrow> a = 0 \<or> a = 1 \<or> a = 4"
    using reach_two_docs by blast
  have "allocated two_docs" by (auto simp: allocated_def two_docs_def split: if_splits)
  moreover have "\<forall>a\<in>reach two_docs 0. objs two_docs a \<noteq> None"
  proof
    fix a assume "a \<in> reach two_docs 0"
    from r [OF this] show "objs two_docs a \<noteq> None" by (auto simp: two_docs_def)
  qed
  moreover have "objs two_docs 2 \<noteq> None" by (simp add: two_docs_def)
  moreover have w: "written two_docs 2 = {2, 3}" by (auto simp: written_def entries_def two_docs_def)
  moreover have "2 \<notin> entries two_docs 2" by (auto simp: entries_def two_docs_def)
  moreover have "reach two_docs 0 \<inter> written two_docs 2 = {}"
    unfolding w using r by fastforce
  ultimately show ?thesis by (simp add: separate_def)
qed

theorem source_unchanged_witness:
  "separate two_docs 0 2 \<and>
   (\<exists>st'. apply_binds_store (PDict 0) (PDict 2) two_docs = Inr (PDict 2, st') \<and>
      objs st' 2 = Some [(''move'', PDict 3), (''chat'', PDict 5)] \<and>
      objs st' 3 = Some [(''sens'', PInt 1), (''key'', PStr ''W'')] \<and>
      (\<forall>a \<in> reach two_docs 0. objs st' a = objs two_docs a) \<and> reach st' 0 = reach two_docs 0)"
  using source_unchanged [of two_docs 0 2] separate_two_docs
  by (auto simp: apply_binds_store_def two_docs_def copy_body_def)


section \<open>The store and the tree agree\<close>

text \<open>
  The claims about the merge are proved on trees, where \<^verbatim>\<open>apply_binds\<close> is a function
  from two documents to the merged one. This section shows that the in-place version
  on the store computes that function when source and target are separate documents
  and the target's dict entries are different objects, as after \<^verbatim>\<open>json.load\<close>.
\<close>

lemma dict_addrs_set: "a \<in> set (dict_addrs d) \<longleftrightarrow> (\<exists>m. (m, PDict a) \<in> set d)"
  by (induction d rule: dict_addrs.induct) auto

lemma pop_idem: "pop k (pop k fs) = pop k fs"
  by (induction fs) auto

lemma read_fields_pop: "read_fields rd (pop k fs) = pop k (read_fields rd fs)"
  by (induction fs) (auto simp: read_fields_def)

lemma read_fields_setitem:
  "read_fields rd (setitem k v fs) = setitem k (rd v) (read_fields rd fs)"
  by (induction fs) (auto simp: read_fields_def)

lemma map_of_read_fields: "map_of (read_fields rd fs) k = map_option rd (map_of fs k)"
  by (induction fs) (auto simp: read_fields_def)

lemma map_of_read_items:
  "map_of (read_items rd st d) m = map_option (read_entry rd st) (map_of d m)"
  by (induction d) (auto simp: read_items_def)

lemma strip_loop_objs:
  "objs (strip_loop items st) a =
     (if a \<in> set (dict_addrs items) then map_option (pop ''key'') (objs st a) else objs st a)"
proof (induction items st rule: strip_loop.induct)
  case (1 st)
  then show ?case by simp
next
  case (2 module params rest st)
  show ?case
  proof (cases "as_dict st params")
    case None
    then have "\<forall>b. params = PDict b \<longrightarrow> objs st b = None"
      by (auto split: option.splits)
    then show ?thesis
      using None "2.IH" by (cases params) (auto simp: )
  next
    case (Some p)
    obtain b fs where p: "p = (b, fs)" by (cases p)
    from Some p have params: "params = PDict b" and fs: "objs st b = Some fs"
      by (cases params; auto split: option.splits)+
    show ?thesis
      using Some p params fs "2.IH" by (auto simp: pop_idem)
  qed
qed


lemma read_entry_cong:
  "(\<forall>a. v = PDict a \<longrightarrow> objs st' a = objs st a) \<Longrightarrow> read_entry rd st' v = read_entry rd st v"
  by (cases v) (auto simp: read_entry_def)

lemma read_items_same:
  "\<forall>a \<in> set (dict_addrs d). objs st' a = objs st a \<Longrightarrow> read_items rd st' d = read_items rd st d"
proof (induction d)
  case Nil
  then show ?case by (simp add: read_items_def)
next
  case (Cons item d)
  obtain m v where item: "item = (m, v)" by (cases item)
  have "read_entry rd st' v = read_entry rd st v"
    using Cons.prems item by (intro read_entry_cong) auto
  moreover have "read_items rd st' d = read_items rd st d"
    using Cons.prems item by (intro Cons.IH) (cases v; auto)
  ultimately show ?case by (simp add: read_items_def item)
qed

lemma read_items_entry_written:
  assumes "distinct (dict_addrs d)" and "map_of d m = Some (PDict ea)"
    and "objs st' ea = Some fs'" and "\<forall>a. a \<noteq> ea \<longrightarrow> objs st' a = objs st a"
  shows "read_items rd st' d = setitem m (JObj (read_fields rd fs')) (read_items rd st d)"
  using assms(1,2)
proof (induction d)
  case Nil
  then show ?case by simp
next
  case (Cons item d)
  obtain m' v where item: "item = (m', v)" by (cases item)
  show ?case
  proof (cases "m' = m")
    case True
    with Cons.prems item have v: "v = PDict ea" by simp
    with Cons.prems(1) item have "ea \<notin> set (dict_addrs d)" by simp
    then have "read_items rd st' d = read_items rd st d"
      using assms(4) by (intro read_items_same) auto
    then show ?thesis
      using True v assms(3) by (simp add: read_items_def item read_entry_def)
  next
    case False
    with Cons.prems item have tail: "map_of d m = Some (PDict ea)" by simp
    then have "ea \<in> set (dict_addrs d)"
      by (auto simp: dict_addrs_set dest: map_of_SomeD)
    with Cons.prems(1) item have "v \<noteq> PDict ea" and "distinct (dict_addrs d)"
      by (cases v; auto)+
    then have "read_entry rd st' v = read_entry rd st v"
      and "read_items rd st' d = setitem m (JObj (read_fields rd fs')) (read_items rd st d)"
      using assms(4) tail Cons.IH by (auto intro: read_entry_cong)
    then show ?thesis
      using False by (simp add: read_items_def item)
  qed
qed

lemma read_items_entry_new:
  assumes "objs st' new = Some fs'" and "new \<notin> set (dict_addrs d)"
    and "\<forall>a \<in> set (dict_addrs d). objs st' a = objs st a"
  shows "read_items rd st' (setitem m (PDict new) d) =
         setitem m (JObj (read_fields rd fs')) (read_items rd st d)"
  using assms(2,3)
proof (induction d)
  case Nil
  then show ?case using assms(1) by (simp add: read_items_def read_entry_def)
next
  case (Cons item d)
  obtain m' v where item: "item = (m', v)" by (cases item)
  from Cons.prems item have tl: "new \<notin> set (dict_addrs d)"
    "\<forall>a \<in> set (dict_addrs d). objs st' a = objs st a"
    by (cases v; auto)+
  show ?case
  proof (cases "m' = m")
    case True
    have "read_items rd st' d = read_items rd st d"
      using tl(2) by (rule read_items_same)
    then show ?thesis
      using True assms(1) by (simp add: read_items_def item read_entry_def)
  next
    case False
    have "read_entry rd st' v = read_entry rd st v"
      using Cons.prems item by (intro read_entry_cong) auto
    then show ?thesis
      using False Cons.IH [OF tl] by (simp add: read_items_def item)
  qed
qed

lemma dict_addrs_setitem:
  "set (dict_addrs (setitem m (PDict new) d)) \<subseteq> insert new (set (dict_addrs d))"
  by (induction d rule: dict_addrs.induct) auto

lemma distinct_dict_addrs_setitem:
  "distinct (dict_addrs d) \<Longrightarrow> new \<notin> set (dict_addrs d) \<Longrightarrow>
   distinct (dict_addrs (setitem m (PDict new) d))"
proof (induction d)
  case Nil
  then show ?case by simp
next
  case (Cons item d)
  obtain m' v where item: "item = (m', v)" by (cases item)
  have sub: "set (dict_addrs (setitem m (PDict new) d)) \<subseteq> insert new (set (dict_addrs d))"
    by (rule dict_addrs_setitem)
  from Cons.prems item have tl: "distinct (dict_addrs d)" "new \<notin> set (dict_addrs d)"
    by (cases v; auto)+
  show ?case
    using Cons.prems Cons.IH [OF tl] sub tl by (cases v) (auto simp: item)
qed


lemma strip_entry_other: "\<not> isinstance_dict x \<Longrightarrow> strip_entry x = x"
  by (cases x) simp_all

lemma ensure_dict_other: "\<not> isinstance_dict x \<Longrightarrow> ensure_dict x = []"
  by (cases x) simp_all

lemma lookup_other: "\<not> isinstance_dict x \<Longrightarrow> lookup x k = None"
  by (cases x) simp_all

lemma strip_pass_map: "strip_pass xs = map (\<lambda>(m, e). (m, strip_entry e)) xs"
  by (induction xs rule: strip_pass.induct) auto

lemma copy_body_sim:
  assumes sim: "sim rd st0 src dst st D" and s: "objs st0 src = Some s"
    and item: "(m, v) \<in> set s"
  shows "sim rd st0 src dst (copy_body dst (m, v) st) (copy_step (m, read_entry rd st0 v) D)"
proof -
  from sim obtain d where d: "objs st dst = Some d" and D: "read_items rd st d = D"
    and dist: "distinct (dict_addrs d)"
    and ent: "\<forall>a \<in> set (dict_addrs d). a \<noteq> dst \<and> a \<notin> reach st0 src \<and> objs st a \<noteq> None"
    and alloc: "allocated st" and dst: "dst \<notin> reach st0 src"
    and src: "\<forall>a \<in> reach st0 src. objs st a = objs st0 a \<and> objs st0 a \<noteq> None"
    and rd: "\<forall>v. as_dict st0 v = None \<longrightarrow> \<not> isinstance_dict (rd v)"
    unfolding sim_def by blast
  have v_reach: "\<And>a. v = PDict a \<Longrightarrow> a \<in> reach st0 src"
    using reach.step [OF reach.start s item] by simp
  have as_v: "as_dict st v = as_dict st0 v"
    using v_reach src by (cases v) auto
  have Dm: "map_of D m = map_option (read_entry rd st) (map_of d m)"
    using D map_of_read_items by blast
  have idle: "sim rd st0 src dst st D" by (rule sim)
  show ?thesis
  proof (cases "map_of d m")
    case None
    then show ?thesis
      using idle d Dm by (simp add: copy_body_def copy_step_def)
  next
    case (Some e)
    show ?thesis
    proof (cases "as_dict st0 v")
      case None
      then have "lookup (read_entry rd st0 v) ''key'' = None"
        using rd by (simp add: read_entry_def lookup_other)
      then show ?thesis
        using idle d Dm Some None as_v by (simp add: copy_body_def copy_step_def)
    next
      case sv: (Some p)
      obtain sa sfs where p: "p = (sa, sfs)" by (cases p)
      have key: "lookup (read_entry rd st0 v) ''key'' = map_option rd (map_of sfs ''key'')"
        using sv p by (simp add: read_entry_def map_of_read_fields)
      show ?thesis
      proof (cases "map_of sfs ''key''")
        case None
        then show ?thesis
          using idle d Dm Some sv p as_v key by (simp add: copy_body_def copy_step_def)
      next
        case k: (Some k)
        have step: "copy_step (m, read_entry rd st0 v) D =
            setitem m (JObj (setitem ''key'' (rd k) (ensure_dict (read_entry rd st e)))) D"
          using Dm Some key k by (simp add: copy_step_def)
        show ?thesis
        proof (cases "as_dict st e")
          case ee: (Some q)
          obtain ea efs where q: "q = (ea, efs)" by (cases q)
          from ee q have e: "e = PDict ea" and efs: "objs st ea = Some efs"
            by (cases e; auto split: option.splits)+
          let ?st' = "st\<lparr>objs := (objs st)(ea \<mapsto> setitem ''key'' k efs)\<rparr>"
          have body: "copy_body dst (m, v) st = ?st'"
            using d Some sv p as_v k ee q by (simp add: copy_body_def)
          from Some e have "ea \<in> set (dict_addrs d)"
            by (auto simp: dict_addrs_set dest: map_of_SomeD)
          with ent have ea: "ea \<noteq> dst" "ea \<notin> reach st0 src" by auto
          have "read_items rd ?st' d =
                setitem m (JObj (read_fields rd (setitem ''key'' k efs))) (read_items rd st d)"
            using dist Some e by (intro read_items_entry_written) auto
          moreover have "ensure_dict (read_entry rd st e) = read_fields rd efs"
            using e efs by (simp add: read_entry_def)
          ultimately have r: "read_items rd ?st' d = copy_step (m, read_entry rd st0 v) D"
            using D by (simp add: step read_fields_setitem)
          have "allocated ?st'"
            using alloc efs by (auto simp: allocated_def)
          then show ?thesis
            unfolding body sim_def
            using d r dist ent ea dst src rd by (intro exI [of _ d]) auto
        next
          case None
          have not_ref: "\<And>a. e \<noteq> PDict a"
          proof
            fix a assume "e = PDict a"
            with Some have "a \<in> set (dict_addrs d)"
              by (auto simp: dict_addrs_set dest: map_of_SomeD)
            with ent have "objs st a \<noteq> None" by auto
            with None \<open>e = PDict a\<close> show False by auto
          qed
          then have "as_dict st0 e = None" by (cases e) auto
          with rd have plain: "\<not> isinstance_dict (rd e)" by blast
          have re: "read_entry rd st e = rd e"
            using None by (simp add: read_entry_def)
          let ?new = "next_addr st"
          let ?d' = "setitem m (PDict ?new) d"
          let ?st' = "st\<lparr>objs := (objs st)(dst \<mapsto> ?d', ?new \<mapsto> setitem ''key'' k []),
                         next_addr := Suc ?new\<rparr>"
          have body: "copy_body dst (m, v) st = ?st'"
            using d Some sv p as_v k None by (simp add: copy_body_def)
          have free: "objs st ?new = None"
            using alloc by (auto simp: allocated_def)
          with d have new_dst: "?new \<noteq> dst" by auto
          from free ent have new_ent: "?new \<notin> set (dict_addrs d)" by auto
          from free src have new_reach: "?new \<notin> reach st0 src" by auto
          have old: "\<forall>a \<in> set (dict_addrs d). objs ?st' a = objs st a"
            using ent new_ent by auto
          have "read_items rd ?st' ?d' =
                setitem m (JObj (read_fields rd (setitem ''key'' k []))) (read_items rd st d)"
            using new_ent old by (intro read_items_entry_new) auto
          moreover have "ensure_dict (read_entry rd st e) = []"
            using plain by (simp add: re ensure_dict_other)
          ultimately have r: "read_items rd ?st' ?d' = copy_step (m, read_entry rd st0 v) D"
            using D by (simp add: step read_fields_def)
          have dist': "distinct (dict_addrs ?d')"
            using dist new_ent by (rule distinct_dict_addrs_setitem)
          have ent': "\<forall>a \<in> set (dict_addrs ?d').
                       a \<noteq> dst \<and> a \<notin> reach st0 src \<and> objs ?st' a \<noteq> None"
            using dict_addrs_setitem [of m ?new d] ent new_dst new_reach by auto
          have alloc': "allocated ?st'"
            using alloc d by (auto simp: allocated_def less_Suc_eq)
          have src': "\<forall>a \<in> reach st0 src. objs ?st' a = objs st0 a \<and> objs st0 a \<noteq> None"
            using src dst new_reach by auto
          have dst': "objs ?st' dst = Some ?d'"
            using new_dst by simp
          show ?thesis
            unfolding body sim_def
            using dst' r dist' ent' alloc' dst src' rd by blast
        qed
      qed
    qed
  qed
qed

lemma copy_loop_sim:
  assumes "sim rd st0 src dst st D" and "objs st0 src = Some s" and "n = length s"
  shows "\<exists>st'. copy_loop src dst n i st = Inr st' \<and>
           sim rd st0 src dst st' (copy_pass (drop i (read_items rd st0 s)) D)"
  using assms
proof (induction src dst n i st arbitrary: D rule: copy_loop.induct)
  case (1 src dst n i st)
  have "src \<in> reach st0 src" by (rule reach.start)
  with "1.prems"(1,2) have src: "objs st src = Some s"
    by (auto simp: sim_def)
  have len: "length (read_items rd st0 s) = n"
    using "1.prems"(3) by (simp add: read_items_def)
  show ?case
  proof (cases "n \<le> i")
    case True
    then show ?thesis
      using src "1.prems" len by (subst copy_loop.simps) simp
  next
    case False
    then have i: "i < length s" using "1.prems"(3) by simp
    obtain m v where mv: "s ! i = (m, v)" by (cases "s ! i")
    with i have "(m, v) \<in> set s" by (metis nth_mem)
    from copy_body_sim [OF "1.prems"(1,2) this]
    have "sim rd st0 src dst (copy_body dst (s ! i) st) (copy_step (m, read_entry rd st0 v) D)"
      by (simp add: mv)
    from "1.IH" [OF src _ False this "1.prems"(2,3)] "1.prems"(3)
    obtain st' where run: "copy_loop src dst n (Suc i) (copy_body dst (s ! i) st) = Inr st'"
      and sim': "sim rd st0 src dst st'
        (copy_pass (drop (Suc i) (read_items rd st0 s)) (copy_step (m, read_entry rd st0 v) D))"
      by auto
    have "drop i (read_items rd st0 s) =
            (m, read_entry rd st0 v) # drop (Suc i) (read_items rd st0 s)"
      using i mv by (simp add: read_items_def Cons_nth_drop_Suc [symmetric])
    with sim' have "sim rd st0 src dst st' (copy_pass (drop i (read_items rd st0 s)) D)"
      by simp
    moreover have "copy_loop src dst n i st = Inr st'"
      using src False "1.prems"(3) run by (subst copy_loop.simps) simp
    ultimately show ?thesis by blast
  qed
qed

lemma strip_loop_sim:
  assumes sep: "separate st src dst" and d: "objs st dst = Some d"
    and dist: "distinct (dict_addrs d)"
    and live: "\<forall>a \<in> set (dict_addrs d). objs st a \<noteq> None"
    and rd: "\<forall>v. as_dict st v = None \<longrightarrow> \<not> isinstance_dict (rd v)"
  shows "sim rd st src dst (strip_loop d st) (strip_pass (read_items rd st d))"
proof -
  let ?st1 = "strip_loop d st"
  have ents: "set (dict_addrs d) = entries st dst"
    using d by (auto simp: entries_def dict_addrs_set)
  from sep have self: "dst \<notin> set (dict_addrs d)"
    and disj: "reach st src \<inter> written st dst = {}"
    and alloc: "allocated st" and whole: "\<forall>a \<in> reach st src. objs st a \<noteq> None"
    by (auto simp: separate_def ents)
  have dst1: "objs ?st1 dst = Some d"
    using self d by (simp add: strip_loop_objs)
  have entry: "\<And>m v. (m, v) \<in> set d \<Longrightarrow> read_entry rd ?st1 v = strip_entry (read_entry rd st v)"
  proof -
    fix m v assume mv: "(m, v) \<in> set d"
    show "read_entry rd ?st1 v = strip_entry (read_entry rd st v)"
    proof (cases "as_dict st v")
      case None
      then have "as_dict ?st1 v = None"
        by (cases v) (auto simp: strip_loop_objs split: option.splits)
      with None rd show ?thesis
        by (simp add: read_entry_def strip_entry_other)
    next
      case (Some p)
      obtain a fs where p: "p = (a, fs)" by (cases p)
      from Some p have v: "v = PDict a" and fs: "objs st a = Some fs"
        by (cases v; auto split: option.splits)+
      from mv v have "a \<in> set (dict_addrs d)"
        by (auto simp: dict_addrs_set)
      then have "objs ?st1 a = Some (pop ''key'' fs)"
        using fs by (simp add: strip_loop_objs)
      then show ?thesis
        using v fs by (simp add: read_entry_def read_fields_pop)
    qed
  qed
  have items: "read_items rd ?st1 d = strip_pass (read_items rd st d)"
    unfolding strip_pass_map read_items_def using entry by (auto simp: )
  have ent1: "\<forall>a \<in> set (dict_addrs d). a \<noteq> dst \<and> a \<notin> reach st src \<and> objs ?st1 a \<noteq> None"
    using self disj live by (auto simp: strip_loop_objs written_def ents [symmetric])
  have alloc1: "allocated ?st1"
    using alloc by (auto simp: allocated_def strip_loop_objs strip_loop_next split: if_splits)
  have dst_out: "dst \<notin> reach st src"
    using disj by (auto simp: written_def)
  have src1: "\<forall>a \<in> reach st src. objs ?st1 a = objs st a \<and> objs st a \<noteq> None"
    using disj whole by (auto simp: strip_loop_objs written_def ents [symmetric])
  show ?thesis
    unfolding sim_def using dst1 items dist ent1 alloc1 dst_out src1 rd by blast
qed

text \<open>
  The call on the store, read back, is the call on the trees: it returns the target,
  and the target then reads as what \<open>apply_binds\<close> returns for the two documents
  read before the call. \<open>rd\<close> is any reading of the values below the entries that
  takes a value which is not a dict to a tree which is not an object.
\<close>

theorem apply_binds_store_refines:
  assumes "separate st src dst"
    and "objs st src = Some s" and "objs st dst = Some d"
    and "distinct (dict_addrs d)"
    and "\<forall>a \<in> set (dict_addrs d). objs st a \<noteq> None"
    and "\<forall>v. as_dict st v = None \<longrightarrow> \<not> isinstance_dict (rd v)"
  shows "\<exists>st' d'. apply_binds_store (PDict src) (PDict dst) st = Inr (PDict dst, st') \<and>
           objs st' dst = Some d' \<and>
           apply_binds (JObj (read_items rd st s)) (JObj (read_items rd st d))
             = Inr (JObj (read_items rd st' d'))"
proof -
  let ?st1 = "strip_loop d st"
  have sim1: "sim rd st src dst ?st1 (strip_pass (read_items rd st d))"
    using assms(1,3-6) by (rule strip_loop_sim)
  have "src \<in> reach st src" by (rule reach.start)
  with sim1 assms(2) have src1: "objs ?st1 src = Some s"
    by (auto simp: sim_def)
  from copy_loop_sim [OF sim1 assms(2) refl, of 0]
  obtain st2 where loop: "copy_loop src dst (length s) 0 ?st1 = Inr st2"
    and sim2: "sim rd st src dst st2
        (copy_pass (read_items rd st s) (strip_pass (read_items rd st d)))"
    by auto
  from sim2 obtain d' where "objs st2 dst = Some d'"
    and "read_items rd st2 d' = copy_pass (read_items rd st s) (strip_pass (read_items rd st d))"
    by (auto simp: sim_def)
  moreover have "apply_binds_store (PDict src) (PDict dst) st = Inr (PDict dst, st2)"
    using assms(3) src1 loop by (simp add: apply_binds_store_def)
  ultimately show ?thesis
    by (simp add: apply_binds_def)
qed

text \<open>The two documents of \<open>two_docs\<close> are such a pair, and the merged target reads as expected.\<close>

lemma leaf_plain: "\<not> isinstance_dict (leaf v)"
  by (cases v) simp_all

lemma refines_two_docs:
  "\<exists>st' d'. apply_binds_store (PDict 0) (PDict 2) two_docs = Inr (PDict 2, st') \<and>
     objs st' 2 = Some d' \<and>
     read_items leaf st' d' =
       [(''move'', JObj [(''sens'', JInt 1), (''key'', JStr ''W'')]),
        (''chat'', JObj [(''key'', JNull)])]"
proof -
  let ?s = "[(''move'', PDict 1), (''chat'', PDict 4)]"
  let ?d = "[(''move'', PDict 3), (''chat'', PInt 3)]"
  have tree: "apply_binds (JObj (read_items leaf two_docs ?s)) (JObj (read_items leaf two_docs ?d))
        = Inr (JObj [(''move'', JObj [(''sens'', JInt 1), (''key'', JStr ''W'')]),
                     (''chat'', JObj [(''key'', JNull)])])"
    by (simp add: read_items_def read_entry_def read_fields_def two_docs_def apply_binds_def
        copy_step_def)
  have s0: "objs two_docs 0 = Some ?s" and d0: "objs two_docs 2 = Some ?d"
    by (simp_all add: two_docs_def)
  have dist: "distinct (dict_addrs ?d)" by simp
  have live: "\<forall>a \<in> set (dict_addrs ?d). objs two_docs a \<noteq> None"
    by (simp add: two_docs_def)
  have plain: "\<forall>v. as_dict two_docs v = None \<longrightarrow> \<not> isinstance_dict (leaf v)"
    by (simp add: leaf_plain)
  from apply_binds_store_refines [OF separate_two_docs s0 d0 dist live plain]
  obtain st' d' where "apply_binds_store (PDict 0) (PDict 2) two_docs = Inr (PDict 2, st')"
    and "objs st' 2 = Some d'"
    and "apply_binds (JObj (read_items leaf two_docs ?s)) (JObj (read_items leaf two_docs ?d))
           = Inr (JObj (read_items leaf st' d'))"
    by blast
  with tree show ?thesis by auto
qed

end
